theory Spec2Isabelle
  imports Main "HOL-Library.List_Lexorder" "HOL-Library.Word"
begin

section \<open>Exceptions\<close>

text \<open>
  The library reports every failure by throwing a standard exception. Each throw site
  of the modelled headers is one constructor of \<open>error\<close>; \<open>exception_class\<close> gives the
  C++ class that is thrown there. A function that may throw returns \<open>error + 'a\<close>.
\<close>

datatype exception_class = invalid_argument | domain_error | runtime_error | logic_error

datatype error =
    OperationNotClosed
  | ElementsNotInGroupoid
  | ClosureViolationDetected
  | NotAssociative
  | IdentityNotInSet
  | NotLeftIdentity
  | NotRightIdentity
  | InverseNotInSet
  | InverseNotRight
  | InverseNotLeft
  | ElementNotInGroup
  | NotSubgroup
  | SubgroupNotNormal
  | SubsetNotNormal
  | InvalidCosets
  | ElementNotInAnyCoset
  | EmptySetDereferenced

text \<open>
  \<open>EmptySetDereferenced\<close> is not an exception: it marks the dereference of \<open>begin()\<close>
  of an empty set, where C++ gives no behaviour at all.
\<close>

fun class_of :: "error \<Rightarrow> exception_class option" where
  "class_of OperationNotClosed = Some invalid_argument"
| "class_of ElementsNotInGroupoid = Some domain_error"
| "class_of ClosureViolationDetected = Some runtime_error"
| "class_of NotAssociative = Some invalid_argument"
| "class_of IdentityNotInSet = Some invalid_argument"
| "class_of NotLeftIdentity = Some invalid_argument"
| "class_of NotRightIdentity = Some invalid_argument"
| "class_of InverseNotInSet = Some invalid_argument"
| "class_of InverseNotRight = Some invalid_argument"
| "class_of InverseNotLeft = Some invalid_argument"
| "class_of ElementNotInGroup = Some domain_error"
| "class_of NotSubgroup = Some invalid_argument"
| "class_of SubgroupNotNormal = Some invalid_argument"
| "class_of SubsetNotNormal = Some invalid_argument"
| "class_of InvalidCosets = Some domain_error"
| "class_of ElementNotInAnyCoset = Some logic_error"
| "class_of EmptySetDereferenced = None"

text \<open>The three throw sites of the inverse validation in the \<open>Group\<close> constructor.\<close>

definition is_invalid_inverse :: "error \<Rightarrow> bool" where
  "is_invalid_inverse e = (e = InverseNotInSet \<or> e = InverseNotRight \<or> e = InverseNotLeft)"

text \<open>Sequencing of two computations that may throw.\<close>

definition bindE :: "error + 'a \<Rightarrow> ('a \<Rightarrow> error + 'b) \<Rightarrow> error + 'b" where
  "bindE m f = (case m of Inl e \<Rightarrow> Inl e | Inr x \<Rightarrow> f x)"

text \<open>
  A loop of the shape \<open>for (x : xs) { if (!check(x)) return false; } return true;\<close>
  whose check may throw.
\<close>

fun for_all :: "('a \<Rightarrow> error + bool) \<Rightarrow> 'a list \<Rightarrow> error + bool" where
  "for_all p [] = Inr True"
| "for_all p (x # xs) =
     (case p x of Inl e \<Rightarrow> Inl e
      | Inr ok \<Rightarrow> if ok then for_all p xs else Inr False)"

section \<open>Set (set.hpp)\<close>

text \<open>
  \<open>Set<T>\<close> wraps a \<open>std::set<T>\<close>: the elements in strictly increasing order, which is
  also the iteration order. The model is the list of the elements in that order;
  \<open>Set<Set<T>>\<close> is ordered lexicographically, as \<open>std::set\<close>'s \<open>operator<\<close> is.
  A well-formed set satisfies \<open>Set_inv\<close>. Sizes and loop counters over a set are
  \<open>size_t\<close> values bounded by the number of stored elements; they are modelled by \<open>nat\<close>.
\<close>

type_synonym 'a Set = "'a list"

definition Set_inv :: "'a::linorder Set \<Rightarrow> bool" where
  "Set_inv xs = (sorted xs \<and> distinct xs)"

definition contains :: "'a Set \<Rightarrow> 'a \<Rightarrow> bool" where
  "contains xs x = (x \<in> set xs)"

definition Set_insert :: "'a::linorder \<Rightarrow> 'a Set \<Rightarrow> 'a Set" where
  "Set_insert x xs = (if contains xs x then xs else insort x xs)"

definition Set_size :: "'a Set \<Rightarrow> nat" where
  "Set_size xs = length xs"

section \<open>Groupoid (groupoid.hpp)\<close>

record 'a Groupoid =
  elements :: "'a Set"
  operation :: "'a \<Rightarrow> 'a \<Rightarrow> 'a"

text \<open>The constructor checks closure for every ordered pair and throws otherwise.\<close>

definition Groupoid_ctor :: "'a Set \<Rightarrow> ('a \<Rightarrow> 'a \<Rightarrow> 'a) \<Rightarrow> error + 'a Groupoid" where
  "Groupoid_ctor S op =
     (if list_all (\<lambda>a. list_all (\<lambda>b. contains S (op a b)) S) S
      then Inr \<lparr>elements = S, operation = op\<rparr>
      else Inl OperationNotClosed)"

definition operate :: "('a, 'z) Groupoid_scheme \<Rightarrow> 'a \<Rightarrow> 'a \<Rightarrow> error + 'a" where
  "operate g a b =
     (if \<not> contains (elements g) a \<or> \<not> contains (elements g) b then Inl ElementsNotInGroupoid
      else let result = operation g a b
           in if \<not> contains (elements g) result then Inl ClosureViolationDetected
              else Inr result)"

definition is_associative :: "('a, 'z) Groupoid_scheme \<Rightarrow> error + bool" where
  "is_associative g =
     for_all (\<lambda>a. for_all (\<lambda>b. for_all (\<lambda>c.
        bindE (operate g a b) (\<lambda>ab. bindE (operate g ab c) (\<lambda>left.
        bindE (operate g b c) (\<lambda>bc. bindE (operate g a bc) (\<lambda>right.
        Inr (left = right))))))
      (elements g)) (elements g)) (elements g)"

section \<open>Semigroup (semigroup.hpp)\<close>

definition Semigroup_ctor :: "'a Set \<Rightarrow> ('a \<Rightarrow> 'a \<Rightarrow> 'a) \<Rightarrow> error + 'a Groupoid" where
  "Semigroup_ctor S op =
     bindE (Groupoid_ctor S op) (\<lambda>g.
     bindE (is_associative g) (\<lambda>ok.
     if \<not> ok then Inl NotAssociative else Inr g))"

section \<open>Monoid (monoid.hpp)\<close>

record 'a Monoid = "'a Groupoid" +
  identity :: 'a

text \<open>The loop of the constructor that checks the identity laws, element by element.\<close>

fun check_identity :: "('a, 'z) Groupoid_scheme \<Rightarrow> 'a \<Rightarrow> 'a list \<Rightarrow> error + unit" where
  "check_identity g e [] = Inr ()"
| "check_identity g e (a # as) =
     bindE (operate g e a) (\<lambda>l.
     if l \<noteq> a then Inl NotLeftIdentity
     else bindE (operate g a e) (\<lambda>r.
     if r \<noteq> a then Inl NotRightIdentity
     else check_identity g e as))"

definition Monoid_ctor :: "'a Set \<Rightarrow> ('a \<Rightarrow> 'a \<Rightarrow> 'a) \<Rightarrow> 'a \<Rightarrow> error + 'a Monoid" where
  "Monoid_ctor S op e =
     bindE (Semigroup_ctor S op) (\<lambda>g.
     let m = \<lparr>elements = elements g, operation = operation g, identity = e\<rparr>
     in if \<not> contains (elements m) (identity m) then Inl IdentityNotInSet
        else bindE (check_identity m (identity m) (elements m)) (\<lambda>_. Inr m))"

section \<open>Group (group.hpp)\<close>

record 'a Group = "'a Monoid" +
  inverse_func :: "'a \<Rightarrow> 'a"
  inverse_map :: "'a \<rightharpoonup> 'a"

text \<open>The first loop of the constructor: every element has a valid inverse.\<close>

fun check_inverses :: "('a, 'z) Monoid_scheme \<Rightarrow> ('a \<Rightarrow> 'a) \<Rightarrow> 'a list \<Rightarrow> error + unit" where
  "check_inverses m f [] = Inr ()"
| "check_inverses m f (a # as) =
     (let inv_a = f a
      in if \<not> contains (elements m) inv_a then Inl InverseNotInSet
         else bindE (operate m a inv_a) (\<lambda>r.
              if r \<noteq> identity m then Inl InverseNotRight
              else bindE (operate m inv_a a) (\<lambda>l.
              if l \<noteq> identity m then Inl InverseNotLeft
              else check_inverses m f as)))"

text \<open>The second loop: the cache of inverses.\<close>

fun build_inverse_map :: "('a \<Rightarrow> 'a) \<Rightarrow> 'a list \<Rightarrow> ('a \<rightharpoonup> 'a) \<Rightarrow> ('a \<rightharpoonup> 'a)" where
  "build_inverse_map f [] m = m"
| "build_inverse_map f (a # as) m = build_inverse_map f as (m(a \<mapsto> f a))"

definition Group_ctor ::
  "'a Set \<Rightarrow> ('a \<Rightarrow> 'a \<Rightarrow> 'a) \<Rightarrow> 'a \<Rightarrow> ('a \<Rightarrow> 'a) \<Rightarrow> error + 'a Group" where
  "Group_ctor S op e f =
     bindE (Monoid_ctor S op e) (\<lambda>m.
     bindE (check_inverses m f (elements m)) (\<lambda>_.
     Inr \<lparr>elements = elements m, operation = operation m, identity = identity m,
          inverse_func = f, inverse_map = build_inverse_map f (elements m) Map.empty\<rparr>))"

definition Group_inverse :: "'a Group \<Rightarrow> 'a \<Rightarrow> error + 'a" where
  "Group_inverse G a =
     (if \<not> contains (elements G) a then Inl ElementNotInGroup
      else case inverse_map G a of Some v \<Rightarrow> Inr v | None \<Rightarrow> Inr (inverse_func G a))"

text \<open>
  \<open>Group::power\<close>. The exponent is a \<open>long long\<close>, modelled by \<open>int\<close>; the loop runs on
  \<open>static_cast<size_t>(n)\<close> for \<open>n > 0\<close>, modelled by \<open>nat\<close>. For a negative exponent the
  source calls \<open>power(inverse(a), -n)\<close>, and \<open>inverse(a)\<close> is evaluated, and may throw,
  before the call. Negating the least \<open>long long\<close> is undefined in C++; the model negates
  in \<open>int\<close>.
\<close>

function power_loop :: "('a, 'z) Groupoid_scheme \<Rightarrow> 'a \<Rightarrow> 'a \<Rightarrow> nat \<Rightarrow> error + 'a" where
  "power_loop G result current_power exp =
     (if exp > 0 then
        (case (if exp mod 2 = 1 then operate G result current_power else Inr result) of
           Inl e \<Rightarrow> Inl e
         | Inr result' \<Rightarrow>
             (case operate G current_power current_power of
                Inl e \<Rightarrow> Inl e
              | Inr current_power' \<Rightarrow> power_loop G result' current_power' (exp div 2)))
      else Inr result)"
  by pat_completeness auto
termination
  by (relation "measure (\<lambda>(G, result, current_power, exp). exp)") auto

function Group_power :: "'a Group \<Rightarrow> 'a \<Rightarrow> int \<Rightarrow> error + 'a" where
  "Group_power G a n =
     (if n = 0 then Inr (identity G)
      else if n < 0 then
        (case Group_inverse G a of Inl e \<Rightarrow> Inl e | Inr inv_a \<Rightarrow> Group_power G inv_a (- n))
      else power_loop G (identity G) a (nat n))"
  by pat_completeness auto
termination
  by (relation "measure (\<lambda>(G, a, n). if n < 0 then 1 else 0)") auto

section \<open>Subgroup (subgroup.hpp)\<close>

record 'a Subgroup =
  parent_group :: "'a Group"
  get_subset :: "'a Set"

definition verify_subgroup_criterion :: "'a Subgroup \<Rightarrow> error + bool" where
  "verify_subgroup_criterion H =
     (if get_subset H = [] then Inr False
      else if \<not> list_all (contains (elements (parent_group H))) (get_subset H) then Inr False
      else for_all (\<lambda>a. for_all (\<lambda>b.
             bindE (Group_inverse (parent_group H) b) (\<lambda>b_inverse.
             bindE (operate (parent_group H) a b_inverse) (\<lambda>product.
             Inr (contains (get_subset H) product))))
           (get_subset H)) (get_subset H))"

definition Subgroup_ctor :: "'a Group \<Rightarrow> 'a Set \<Rightarrow> error + 'a Subgroup" where
  "Subgroup_ctor G sub =
     (let H = \<lparr>parent_group = G, get_subset = sub\<rparr>
      in bindE (verify_subgroup_criterion H) (\<lambda>ok.
         if \<not> ok then Inl NotSubgroup else Inr H))"

section \<open>NormalSubgroup (normal\_subgroup.hpp)\<close>

text \<open>\<open>NormalSubgroup\<close> derives from \<open>Subgroup\<close> and adds no field.\<close>

type_synonym 'a NormalSubgroup = "'a Subgroup"

definition verify_normal :: "'a NormalSubgroup \<Rightarrow> error + bool" where
  "verify_normal N =
     for_all (\<lambda>g. for_all (\<lambda>n.
        bindE (Group_inverse (parent_group N) g) (\<lambda>g_inverse.
        bindE (operate (parent_group N) g n) (\<lambda>gn.
        bindE (operate (parent_group N) gn g_inverse) (\<lambda>conjugate.
        Inr (contains (get_subset N) conjugate)))))
      (get_subset N)) (elements (parent_group N))"

text \<open>A loop that inserts \<open>f x\<close> into a set for every \<open>x\<close> of a range; \<open>f\<close> may throw.\<close>

fun insert_each :: "('a \<Rightarrow> error + 'b::linorder) \<Rightarrow> 'a list \<Rightarrow> 'b Set \<Rightarrow> error + 'b Set" where
  "insert_each f [] acc = Inr acc"
| "insert_each f (x # xs) acc =
     (case f x of Inl e \<Rightarrow> Inl e | Inr y \<Rightarrow> insert_each f xs (Set_insert y acc))"

definition verify_normal_via_cosets :: "'a::linorder NormalSubgroup \<Rightarrow> error + bool" where
  "verify_normal_via_cosets N =
     for_all (\<lambda>g.
        bindE (insert_each (\<lambda>n. operate (parent_group N) g n) (get_subset N) []) (\<lambda>left_coset.
        bindE (insert_each (\<lambda>n. operate (parent_group N) n g) (get_subset N) []) (\<lambda>right_coset.
        Inr (left_coset = right_coset))))
      (elements (parent_group N))"

definition NormalSubgroup_ctor :: "'a Subgroup \<Rightarrow> error + 'a NormalSubgroup" where
  "NormalSubgroup_ctor H =
     bindE (verify_normal H) (\<lambda>ok. if \<not> ok then Inl SubgroupNotNormal else Inr H)"

definition NormalSubgroup_ctor2 :: "'a Group \<Rightarrow> 'a Set \<Rightarrow> error + 'a NormalSubgroup" where
  "NormalSubgroup_ctor2 G sub =
     bindE (Subgroup_ctor G sub) (\<lambda>H.
     bindE (verify_normal H) (\<lambda>ok. if \<not> ok then Inl SubsetNotNormal else Inr H))"

section \<open>Coset and LagrangesTheorem (coset.hpp)\<close>

datatype CosetType = LEFT | RIGHT

record 'a Coset =
  group_ref :: "'a Group"
  subgroup_ref :: "'a Subgroup"
  representative :: 'a
  coset_type :: CosetType
  coset :: "'a Set"

definition build_coset ::
  "'a::linorder Group \<Rightarrow> 'a Subgroup \<Rightarrow> 'a \<Rightarrow> CosetType \<Rightarrow> error + 'a Set" where
  "build_coset G H rep ty =
     (if ty = LEFT then insert_each (\<lambda>h. operate G rep h) (get_subset H) []
      else insert_each (\<lambda>h. operate G h rep) (get_subset H) [])"

definition Coset_ctor ::
  "'a::linorder Group \<Rightarrow> 'a Subgroup \<Rightarrow> 'a \<Rightarrow> CosetType \<Rightarrow> error + 'a Coset" where
  "Coset_ctor G H rep ty =
     bindE (build_coset G H rep ty) (\<lambda>c.
     Inr \<lparr>group_ref = G, subgroup_ref = H, representative = rep, coset_type = ty, coset = c\<rparr>)"

text \<open>
  The loop of \<open>find_all_cosets\<close> over the elements of the group, with its two local
  sets \<open>cosets\<close> and \<open>processed\<close>.
\<close>

fun find_all_cosets_loop ::
  "'a::linorder Group \<Rightarrow> 'a Subgroup \<Rightarrow> 'a list \<Rightarrow> 'a Set Set \<Rightarrow> 'a Set \<Rightarrow> error + 'a Set Set" where
  "find_all_cosets_loop G H [] cosets processed = Inr cosets"
| "find_all_cosets_loop G H (g # gs) cosets processed =
     (if list_ex (\<lambda>c. contains c g) cosets then find_all_cosets_loop G H gs cosets processed
      else case Coset_ctor G H g LEFT of
             Inl e \<Rightarrow> Inl e
           | Inr c \<Rightarrow> find_all_cosets_loop G H gs (Set_insert (coset c) cosets)
                        (fold Set_insert (coset c) processed))"

definition find_all_cosets :: "'a::linorder Group \<Rightarrow> 'a Subgroup \<Rightarrow> error + 'a Set Set" where
  "find_all_cosets G H = find_all_cosets_loop G H (elements G) [] []"

definition compute_index :: "'a::linorder Group \<Rightarrow> 'a Subgroup \<Rightarrow> error + nat" where
  "compute_index G H = bindE (find_all_cosets G H) (\<lambda>cs. Inr (Set_size cs))"

definition LagrangesTheorem_verify :: "'a::linorder Group \<Rightarrow> 'a Subgroup \<Rightarrow> error + bool" where
  "LagrangesTheorem_verify G H =
     (let group_order = Set_size (elements G); subgroup_order = Set_size (get_subset H)
      in bindE (compute_index G H) (\<lambda>index. Inr (group_order = subgroup_order * index)))"

section \<open>FactorGroup (factor\_group.hpp)\<close>

record 'a FactorGroup =
  fg_parent_group :: "'a Group"
  fg_normal_subgroup :: "'a NormalSubgroup"
  cosets :: "'a Set Set"
  element_to_coset :: "'a \<rightharpoonup> 'a Set"

text \<open>The two nested loops of \<open>build_coset_set\<close> that fill the lookup table: the inner
  one maps every element of one coset to that coset.\<close>

definition assign_coset :: "'a Set \<Rightarrow> ('a \<rightharpoonup> 'a Set) \<Rightarrow> ('a \<rightharpoonup> 'a Set)" where
  "assign_coset c m = fold (\<lambda>element m'. m'(element \<mapsto> c)) c m"

definition build_element_to_coset :: "'a Set Set \<Rightarrow> ('a \<rightharpoonup> 'a Set)" where
  "build_element_to_coset cs = fold assign_coset cs Map.empty"

definition FactorGroup_ctor ::
  "'a::linorder Group \<Rightarrow> 'a NormalSubgroup \<Rightarrow> error + 'a FactorGroup" where
  "FactorGroup_ctor G N =
     bindE (find_all_cosets G N) (\<lambda>cs.
     Inr \<lparr>fg_parent_group = G, fg_normal_subgroup = N, cosets = cs,
          element_to_coset = build_element_to_coset cs\<rparr>)"

definition find_coset_containing :: "'a FactorGroup \<Rightarrow> 'a \<Rightarrow> error + 'a Set" where
  "find_coset_containing F element =
     (case element_to_coset F element of
        Some c \<Rightarrow> Inr c
      | None \<Rightarrow> Inl ElementNotInAnyCoset)"

text \<open>\<open>*s.begin()\<close>: the least element of a set.\<close>

definition Set_begin :: "'a Set \<Rightarrow> error + 'a" where
  "Set_begin xs = (case xs of [] \<Rightarrow> Inl EmptySetDereferenced | x # _ \<Rightarrow> Inr x)"

definition FactorGroup_operate :: "'a FactorGroup \<Rightarrow> 'a Set \<Rightarrow> 'a Set \<Rightarrow> error + 'a Set" where
  "FactorGroup_operate F coset_a coset_b =
     (if \<not> contains (cosets F) coset_a \<or> \<not> contains (cosets F) coset_b then Inl InvalidCosets
      else bindE (Set_begin coset_a) (\<lambda>rep_a.
           bindE (Set_begin coset_b) (\<lambda>rep_b.
           bindE (operate (fg_parent_group F) rep_a rep_b) (\<lambda>product.
           find_coset_containing F product))))"

section \<open>ElementOrder (element\_order.hpp)\<close>

function compute_loop :: "'a Group \<Rightarrow> 'a \<Rightarrow> nat \<Rightarrow> 'a \<Rightarrow> nat \<Rightarrow> error + nat option" where
  "compute_loop G element group_order current n =
     (if n \<le> group_order then
        (if current = identity G then Inr (Some n)
         else case operate G current element of
                Inl e \<Rightarrow> Inl e
              | Inr current' \<Rightarrow> compute_loop G element group_order current' (n + 1))
      else Inr None)"
  by pat_completeness auto
termination
  by (relation "measure (\<lambda>(G, element, group_order, current, n). group_order + 1 - n)") auto

definition ElementOrder_compute :: "'a Group \<Rightarrow> 'a \<Rightarrow> error + nat option" where
  "ElementOrder_compute G element =
     (if \<not> contains (elements G) element then Inl ElementNotInGroup
      else if element = identity G then Inr (Some 1)
      else compute_loop G element (Set_size (elements G)) element 1)"

section \<open>CyclicGroup (cyclic\_group.hpp)\<close>

definition is_generator :: "'a Group \<Rightarrow> 'a \<Rightarrow> error + bool" where
  "is_generator G element =
     (if \<not> contains (elements G) element then Inr False
      else bindE (ElementOrder_compute G element) (\<lambda>order.
           case order of
             None \<Rightarrow> Inr False
           | Some n \<Rightarrow> Inr (n = Set_size (elements G))))"

fun find_generator_loop :: "'a Group \<Rightarrow> 'a list \<Rightarrow> error + 'a option" where
  "find_generator_loop G [] = Inr None"
| "find_generator_loop G (candidate # cs) =
     (case is_generator G candidate of
        Inl e \<Rightarrow> Inl e
      | Inr ok \<Rightarrow> if ok then Inr (Some candidate) else find_generator_loop G cs)"

definition find_generator :: "'a Group \<Rightarrow> error + 'a option" where
  "find_generator G = find_generator_loop G (elements G)"

text \<open>The two loops of \<open>generate_cyclic_subgroup\<close>: the capped one for an element
  without a computed order, and the one that runs up to the order.\<close>

function generate_capped ::
  "'a::linorder Group \<Rightarrow> 'a \<Rightarrow> nat \<Rightarrow> nat \<Rightarrow> 'a \<Rightarrow> 'a Set \<Rightarrow> error + 'a Set" where
  "generate_capped G generator max_iterations i current subgroup =
     (if i < max_iterations then
        (if current = identity G \<and> i > 0 then Inr subgroup
         else case operate G current generator of
                Inl e \<Rightarrow> Inl e
              | Inr current' \<Rightarrow>
                  generate_capped G generator max_iterations (i + 1) current'
                    (Set_insert current subgroup))
      else Inr subgroup)"
  by pat_completeness auto
termination
  by (relation "measure (\<lambda>(G, generator, max_iterations, i, current, subgroup). max_iterations - i)")
    auto

function generate_to_order ::
  "'a::linorder Group \<Rightarrow> 'a \<Rightarrow> nat \<Rightarrow> nat \<Rightarrow> 'a \<Rightarrow> 'a Set \<Rightarrow> error + 'a Set" where
  "generate_to_order G generator order i current subgroup =
     (if i < order then
        (case operate G current generator of
           Inl e \<Rightarrow> Inl e
         | Inr current' \<Rightarrow>
             generate_to_order G generator order (i + 1) current' (Set_insert current subgroup))
      else Inr subgroup)"
  by pat_completeness auto
termination
  by (relation "measure (\<lambda>(G, generator, order, i, current, subgroup). order - i)") auto

definition generate_cyclic_subgroup :: "'a::linorder Group \<Rightarrow> 'a \<Rightarrow> error + 'a Set" where
  "generate_cyclic_subgroup G generator =
     (if \<not> contains (elements G) generator then Inl ElementNotInGroup
      else let subgroup = Set_insert (identity G) []
           in bindE (ElementOrder_compute G generator) (\<lambda>order.
              case order of
                None \<Rightarrow> generate_capped G generator (Set_size (elements G)) 0 generator subgroup
              | Some n \<Rightarrow> generate_to_order G generator n 1 generator subgroup))"

section \<open>EulerFunction (euler\_function.hpp)\<close>

text \<open>
  \<open>size_t\<close> is a 64-bit unsigned integer here. The loops are written as the source has
  them; a loop that does not return, and a division by zero, give \<open>None\<close>.
\<close>

partial_function (option) strip_prime :: "64 word \<Rightarrow> 64 word \<Rightarrow> 64 word option" where
  "strip_prime temp p =
     (if p = 0 then None
      else if temp mod p = 0 then strip_prime (temp div p) p
      else Some temp)"

partial_function (option) factor_loop ::
  "64 word \<Rightarrow> 64 word \<Rightarrow> 64 word \<Rightarrow> (64 word \<times> 64 word) option" where
  "factor_loop p temp result =
     (if p * p \<le> temp then
        (if p = 0 then None
         else if temp mod p = 0 then
           Option.bind (strip_prime temp p) (\<lambda>temp'.
             factor_loop (p + 1) temp' (result div p * (p - 1)))
         else factor_loop (p + 1) temp result)
      else Some (temp, result))"

definition EulerFunction_compute :: "64 word \<Rightarrow> 64 word option" where
  "EulerFunction_compute n =
     (if n = 0 then Some 0
      else if n = 1 then Some 1
      else Option.bind (factor_loop 2 n n) (\<lambda>(temp, result).
             if temp > 1 then Some (result div temp * (temp - 1)) else Some result))"

partial_function (option) sum_over_divisors ::
  "64 word \<Rightarrow> 64 word \<Rightarrow> 64 word \<Rightarrow> 64 word option" where
  "sum_over_divisors n d acc =
     (if d \<le> n then
        (if d = 0 then None
         else if n mod d = 0 then
           Option.bind (EulerFunction_compute d) (\<lambda>phi. sum_over_divisors n (d + 1) (acc + phi))
         else sum_over_divisors n (d + 1) acc)
      else Some acc)"

definition verify_sum_over_divisors :: "64 word \<Rightarrow> bool option" where
  "verify_sum_over_divisors n =
     Option.bind (sum_over_divisors n 1 0) (\<lambda>acc. Some (acc = n))"

section \<open>The laws a constructed group satisfies\<close>

text \<open>What the constructors have checked, stated on the fields of the object.\<close>

definition closed_on :: "'a set \<Rightarrow> ('a \<Rightarrow> 'a \<Rightarrow> 'a) \<Rightarrow> bool" where
  "closed_on A op = (\<forall>a\<in>A. \<forall>b\<in>A. op a b \<in> A)"

definition group_laws :: "'a Group \<Rightarrow> bool" where
  "group_laws G =
     (closed_on (set (elements G)) (operation G)
      \<and> (\<forall>a\<in>set (elements G). \<forall>b\<in>set (elements G). \<forall>c\<in>set (elements G).
            operation G (operation G a b) c = operation G a (operation G b c))
      \<and> identity G \<in> set (elements G)
      \<and> (\<forall>a\<in>set (elements G). operation G (identity G) a = a \<and> operation G a (identity G) = a)
      \<and> (\<forall>a\<in>set (elements G). inverse_func G a \<in> set (elements G)
            \<and> operation G a (inverse_func G a) = identity G
            \<and> operation G (inverse_func G a) a = identity G)
      \<and> (\<forall>a\<in>set (elements G). inverse_map G a = Some (inverse_func G a)))"

text \<open>The \<open>n\<close>-fold product of an element with itself, \<open>a\<^sup>n\<close>.\<close>

fun npow :: "('a, 'z) Monoid_scheme \<Rightarrow> 'a \<Rightarrow> nat \<Rightarrow> 'a" where
  "npow G a 0 = identity G"
| "npow G a (Suc n) = operation G (npow G a n) a"

section \<open>Example structures\<close>

text \<open>The additive group of integers modulo 6 (scenario A of the specification) and its
  subgroup \<open>{0, 3}\<close> (scenario B).\<close>

definition add_mod6 :: "int \<Rightarrow> int \<Rightarrow> int" where
  "add_mod6 a b = (a + b) mod 6"

definition neg_mod6 :: "int \<Rightarrow> int" where
  "neg_mod6 a = (6 - a) mod 6"

definition Z6 :: "int Group" where
  "Z6 = \<lparr>elements = [0, 1, 2, 3, 4, 5], operation = add_mod6, identity = 0,
         inverse_func = neg_mod6,
         inverse_map = build_inverse_map neg_mod6 [0, 1, 2, 3, 4, 5] Map.empty\<rparr>"

definition H03 :: "int Subgroup" where
  "H03 = \<lparr>parent_group = Z6, get_subset = [0, 3]\<rparr>"

text \<open>The factor group of \<open>Z6\<close> by \<open>{0, 3}\<close>, with its three cosets.\<close>

definition Z6_mod_H03 :: "int FactorGroup" where
  "Z6_mod_H03 = \<lparr>fg_parent_group = Z6, fg_normal_subgroup = H03,
                  cosets = [[0, 3], [1, 4], [2, 5]],
                  element_to_coset = build_element_to_coset [[0, 3], [1, 4], [2, 5]]\<rparr>"

text \<open>
  The dihedral group of order 6, which is not abelian: the element \<open>k + 3 f\<close> stands for
  the rotation by \<open>k\<close> steps followed, when \<open>f = 1\<close>, by the reflection. Its subgroup
  \<open>{0, 3}\<close> (the identity and the reflection) is not normal.
\<close>

definition d3_op :: "int \<Rightarrow> int \<Rightarrow> int" where
  "d3_op a b =
     (if a div 3 = 0 then (a mod 3 + b mod 3) mod 3 else (a mod 3 + 3 - b mod 3) mod 3)
     + 3 * ((a div 3 + b div 3) mod 2)"

definition d3_inv :: "int \<Rightarrow> int" where
  "d3_inv a = (if a div 3 = 0 then (3 - a mod 3) mod 3 else a)"

definition D3 :: "int Group" where
  "D3 = \<lparr>elements = [0, 1, 2, 3, 4, 5], operation = d3_op, identity = 0,
         inverse_func = d3_inv,
         inverse_map = build_inverse_map d3_inv [0, 1, 2, 3, 4, 5] Map.empty\<rparr>"

definition K03 :: "int Subgroup" where
  "K03 = \<lparr>parent_group = D3, get_subset = [0, 3]\<rparr>"

text \<open>The rotations \<open>{0, 1, 2}\<close> are a normal subgroup of \<open>D3\<close>, with two cosets.\<close>

definition R012 :: "int Subgroup" where
  "R012 = \<lparr>parent_group = D3, get_subset = [0, 1, 2]\<rparr>"

definition D3_mod_R012 :: "int FactorGroup" where
  "D3_mod_R012 = \<lparr>fg_parent_group = D3, fg_normal_subgroup = R012,
                   cosets = [[0, 1, 2], [3, 4, 5]],
                   element_to_coset = build_element_to_coset [[0, 1, 2], [3, 4, 5]]\<rparr>"

text \<open>The carrier \<open>{0, 1, 2}\<close> with multiplication modulo 3 (the negative scenario of the
  specification), and with addition modulo 3 under the identity candidate 1.\<close>

definition mul_mod3 :: "int \<Rightarrow> int \<Rightarrow> int" where
  "mul_mod3 a b = (a * b) mod 3"

definition add_mod3 :: "int \<Rightarrow> int \<Rightarrow> int" where
  "add_mod3 a b = (a + b) mod 3"

definition four_minus_mod3 :: "int \<Rightarrow> int" where
  "four_minus_mod3 a = (4 - a) mod 3"

text \<open>A set-level view of the cosets of a subgroup, used to state what the code computes.\<close>

definition left_coset_of :: "'a Group \<Rightarrow> 'a Subgroup \<Rightarrow> 'a \<Rightarrow> 'a set" where
  "left_coset_of G H g = (\<lambda>h. operation G g h) ` set (get_subset H)"

definition right_coset_of :: "'a Group \<Rightarrow> 'a Subgroup \<Rightarrow> 'a \<Rightarrow> 'a set" where
  "right_coset_of G H g = (\<lambda>h. operation G h g) ` set (get_subset H)"

text \<open>What the \<open>Subgroup\<close> constructor has checked.\<close>

definition subgroup_laws :: "'a Subgroup \<Rightarrow> bool" where
  "subgroup_laws H =
     (get_subset H \<noteq> []
      \<and> set (get_subset H) \<subseteq> set (elements (parent_group H))
      \<and> (\<forall>a\<in>set (get_subset H). \<forall>b\<in>set (get_subset H).
            operation (parent_group H) a (inverse_func (parent_group H) b) \<in> set (get_subset H)))"



text \<open>Closure of a subgroup under conjugation by every element of the parent group.\<close>

definition normal_laws :: "'a Subgroup \<Rightarrow> bool" where
  "normal_laws N =
     (\<forall>g\<in>set (elements (parent_group N)). \<forall>n\<in>set (get_subset N).
        operation (parent_group N) (operation (parent_group N) g n)
          (inverse_func (parent_group N) g) \<in> set (get_subset N))"

section \<open>Basic facts\<close>

declare power_loop.simps [simp del] Group_power.simps [simp del] compute_loop.simps [simp del]
  generate_capped.simps [simp del] generate_to_order.simps [simp del]

lemma bindE_Inr [simp]: "bindE (Inr x) f = f x"
  by (simp add: bindE_def)

lemma bindE_Inl [simp]: "bindE (Inl e) f = Inl e"
  by (simp add: bindE_def)

lemma bindE_eq_Inr: "bindE m f = Inr y \<longleftrightarrow> (\<exists>x. m = Inr x \<and> f x = Inr y)"
  by (cases m) simp_all

lemma for_all_Inr:
  "(\<And>x. x \<in> set xs \<Longrightarrow> p x = Inr (q x)) \<Longrightarrow> for_all p xs = Inr (\<forall>x\<in>set xs. q x)"
  by (induction xs) auto

section \<open>What the constructors establish\<close>

lemma is_associative_closed:
  assumes "closed_on (set (elements g)) (operation g)"
  shows "is_associative g
    = Inr (\<forall>a\<in>set (elements g). \<forall>b\<in>set (elements g). \<forall>c\<in>set (elements g).
             operation g (operation g a b) c = operation g a (operation g b c))"
proof -
  have cl: "operation g a b \<in> set (elements g)"
    if "a \<in> set (elements g)" "b \<in> set (elements g)" for a b
    using assms that by (simp add: closed_on_def)
  have op: "operate g a b = Inr (operation g a b)"
    if "a \<in> set (elements g)" "b \<in> set (elements g)" for a b
    using that cl by (simp add: operate_def contains_def)
  have 1: "for_all (\<lambda>c.
        bindE (operate g a b) (\<lambda>ab. bindE (operate g ab c) (\<lambda>left.
        bindE (operate g b c) (\<lambda>bc. bindE (operate g a bc) (\<lambda>right.
        Inr (left = right)))))) (elements g)
      = Inr (\<forall>c\<in>set (elements g).
               operation g (operation g a b) c = operation g a (operation g b c))"
    if "a \<in> set (elements g)" "b \<in> set (elements g)" for a b
    by (rule for_all_Inr) (simp add: op cl that)
  have 2: "for_all (\<lambda>b. for_all (\<lambda>c.
        bindE (operate g a b) (\<lambda>ab. bindE (operate g ab c) (\<lambda>left.
        bindE (operate g b c) (\<lambda>bc. bindE (operate g a bc) (\<lambda>right.
        Inr (left = right)))))) (elements g)) (elements g)
      = Inr (\<forall>b\<in>set (elements g). \<forall>c\<in>set (elements g).
               operation g (operation g a b) c = operation g a (operation g b c))"
    if "a \<in> set (elements g)" for a
    by (rule for_all_Inr) (simp add: 1 that)
  show ?thesis
    unfolding is_associative_def by (rule for_all_Inr) (simp add: 2)
qed

lemma Groupoid_ctor_iff:
  "Groupoid_ctor S op = Inr g \<longleftrightarrow> g = \<lparr>elements = S, operation = op\<rparr> \<and> closed_on (set S) op"
  by (auto simp: Groupoid_ctor_def contains_def list_all_iff closed_on_def)

lemma Groupoid_ctor_Inl:
  "Groupoid_ctor S op = Inl err \<longleftrightarrow> err = OperationNotClosed \<and> \<not> closed_on (set S) op"
  by (auto simp: Groupoid_ctor_def contains_def list_all_iff closed_on_def)

lemma Semigroup_ctor_iff:
  "Semigroup_ctor S op = Inr g \<longleftrightarrow>
     g = \<lparr>elements = S, operation = op\<rparr> \<and> closed_on (set S) op
     \<and> (\<forall>a\<in>set S. \<forall>b\<in>set S. \<forall>c\<in>set S. op (op a b) c = op a (op b c))"
proof (cases "closed_on (set S) op")
  case True
  then have g: "Groupoid_ctor S op = Inr \<lparr>elements = S, operation = op\<rparr>"
    by (simp add: Groupoid_ctor_iff)
  have "is_associative \<lparr>elements = S, operation = op\<rparr>
      = Inr (\<forall>a\<in>set S. \<forall>b\<in>set S. \<forall>c\<in>set S. op (op a b) c = op a (op b c))"
    using is_associative_closed[of "\<lparr>elements = S, operation = op\<rparr>"] True by simp
  then show ?thesis
    using True by (auto simp: Semigroup_ctor_def g)
next
  case False
  then have "Groupoid_ctor S op = Inl OperationNotClosed"
    by (simp add: Groupoid_ctor_Inl)
  then show ?thesis
    using False by (simp add: Semigroup_ctor_def)
qed

lemma check_identity_closed:
  assumes "closed_on (set (elements g)) (operation g)" and "e \<in> set (elements g)"
    and "set as \<subseteq> set (elements g)"
  shows "(check_identity g e as = Inr ()
            \<longleftrightarrow> (\<forall>a\<in>set as. operation g e a = a \<and> operation g a e = a))
         \<and> (\<forall>err. check_identity g e as = Inl err
               \<longrightarrow> err = NotLeftIdentity \<or> err = NotRightIdentity)"
  using assms(3)
proof (induction as)
  case Nil
  then show ?case by simp
next
  case (Cons a as)
  then have a: "a \<in> set (elements g)" and as: "set as \<subseteq> set (elements g)"
    by simp_all
  have l: "operate g e a = Inr (operation g e a)" and r: "operate g a e = Inr (operation g a e)"
    using assms(1,2) a by (simp_all add: operate_def contains_def closed_on_def)
  show ?case
    using Cons.IH[OF as] by (auto simp: l r)
qed

lemma Monoid_ctor_iff:
  "Monoid_ctor S op e = Inr m \<longleftrightarrow>
     m = \<lparr>elements = S, operation = op, identity = e\<rparr>
     \<and> Semigroup_ctor S op = Inr \<lparr>elements = S, operation = op\<rparr>
     \<and> e \<in> set S \<and> (\<forall>a\<in>set S. op e a = a \<and> op a e = a)"
proof (cases "Semigroup_ctor S op")
  case (Inl err)
  then show ?thesis by (simp add: Monoid_ctor_def)
next
  case (Inr g)
  then have g: "g = \<lparr>elements = S, operation = op\<rparr>" and cl: "closed_on (set S) op"
    by (simp_all add: Semigroup_ctor_iff)
  let ?m = "\<lparr>elements = S, operation = op, identity = e\<rparr>"
  show ?thesis
  proof (cases "e \<in> set S")
    case False
    then show ?thesis
      using Inr g by (simp add: Monoid_ctor_def contains_def)
  next
    case True
    have ci: "(check_identity ?m e S = Inr ()
            \<longleftrightarrow> (\<forall>a\<in>set S. op e a = a \<and> op a e = a))"
      using check_identity_closed[of ?m e S] cl True by simp
    show ?thesis
      using Inr g True ci
      by (cases "check_identity ?m e S") (auto simp: Monoid_ctor_def contains_def)
  qed
qed

lemma check_inverses_closed:
  assumes "closed_on (set (elements m)) (operation m)" and "set as \<subseteq> set (elements m)"
  shows "(check_inverses m f as = Inr ()
            \<longleftrightarrow> (\<forall>a\<in>set as. f a \<in> set (elements m)
                   \<and> operation m a (f a) = identity m \<and> operation m (f a) a = identity m))
         \<and> (\<forall>err. check_inverses m f as = Inl err \<longrightarrow> is_invalid_inverse err)"
  using assms(2)
proof (induction as)
  case Nil
  then show ?case by simp
next
  case (Cons a as)
  then have a: "a \<in> set (elements m)" and as: "set as \<subseteq> set (elements m)"
    by simp_all
  show ?case
  proof (cases "f a \<in> set (elements m)")
    case False
    then show ?thesis
      by (simp add: contains_def is_invalid_inverse_def Let_def)
  next
    case True
    have r: "operate m a (f a) = Inr (operation m a (f a))"
      and l: "operate m (f a) a = Inr (operation m (f a) a)"
      using assms(1) a True by (simp_all add: operate_def contains_def closed_on_def)
    show ?thesis
      using Cons.IH[OF as] True
      by (auto simp: l r contains_def is_invalid_inverse_def Let_def)
  qed
qed

lemma build_inverse_map_apply:
  "build_inverse_map f as m a = (if a \<in> set as then Some (f a) else m a)"
  by (induction as arbitrary: m) auto

lemma Group_ctor_iff:
  "Group_ctor S op e f = Inr G \<longleftrightarrow>
     G = \<lparr>elements = S, operation = op, identity = e, inverse_func = f,
          inverse_map = build_inverse_map f S Map.empty\<rparr>
     \<and> Monoid_ctor S op e = Inr \<lparr>elements = S, operation = op, identity = e\<rparr>
     \<and> (\<forall>a\<in>set S. f a \<in> set S \<and> op a (f a) = e \<and> op (f a) a = e)"
proof (cases "Monoid_ctor S op e")
  case (Inl err)
  then show ?thesis by (simp add: Group_ctor_def)
next
  case (Inr m)
  then have m: "m = \<lparr>elements = S, operation = op, identity = e\<rparr>"
    and cl: "closed_on (set S) op"
    by (simp_all add: Monoid_ctor_iff Semigroup_ctor_iff)
  have ci: "check_inverses m f S = Inr ()
      \<longleftrightarrow> (\<forall>a\<in>set S. f a \<in> set S \<and> op a (f a) = e \<and> op (f a) a = e)"
    using check_inverses_closed[of m S f] cl m by simp
  show ?thesis
    using Inr ci m
    by (cases "check_inverses m f S") (auto simp: Group_ctor_def)
qed

lemma Group_ctor_laws:
  assumes "Group_ctor S op e f = Inr G"
  shows "elements G = S" "operation G = op" "identity G = e" "inverse_func G = f"
    "group_laws G"
proof -
  from assms have G: "G = \<lparr>elements = S, operation = op, identity = e, inverse_func = f,
          inverse_map = build_inverse_map f S Map.empty\<rparr>"
    and M: "Monoid_ctor S op e = Inr \<lparr>elements = S, operation = op, identity = e\<rparr>"
    and I: "\<forall>a\<in>set S. f a \<in> set S \<and> op a (f a) = e \<and> op (f a) a = e"
    by (simp_all add: Group_ctor_iff)
  show "elements G = S" "operation G = op" "identity G = e" "inverse_func G = f"
    by (simp_all add: G)
  from M have "closed_on (set S) op"
    and "\<forall>a\<in>set S. \<forall>b\<in>set S. \<forall>c\<in>set S. op (op a b) c = op a (op b c)"
    and "e \<in> set S" and "\<forall>a\<in>set S. op e a = a \<and> op a e = a"
    by (simp_all add: Monoid_ctor_iff Semigroup_ctor_iff)
  then show "group_laws G"
    using I by (simp add: group_laws_def G build_inverse_map_apply)
qed

section \<open>The example group\<close>

lemma Z6_groupoid:
  "Groupoid_ctor [0, 1, 2, 3, 4, 5] add_mod6
     = Inr \<lparr>elements = [0, 1, 2, 3, 4, 5], operation = add_mod6\<rparr>"
  by (simp add: Groupoid_ctor_def contains_def add_mod6_def)

lemma Z6_associative:
  "is_associative \<lparr>elements = [0, 1, 2, 3, 4, 5], operation = add_mod6\<rparr> = Inr True"
  by code_simp

lemma Z6_semigroup:
  "Semigroup_ctor [0, 1, 2, 3, 4, 5] add_mod6
     = Inr \<lparr>elements = [0, 1, 2, 3, 4, 5], operation = add_mod6\<rparr>"
  by (simp add: Semigroup_ctor_def Z6_groupoid Z6_associative)

lemma Z6_check_identity:
  "check_identity \<lparr>elements = [0, 1, 2, 3, 4, 5], operation = add_mod6, identity = 0\<rparr>
     0 [0, 1, 2, 3, 4, 5] = Inr ()"
  by code_simp

lemma Z6_monoid:
  "Monoid_ctor [0, 1, 2, 3, 4, 5] add_mod6 0
     = Inr \<lparr>elements = [0, 1, 2, 3, 4, 5], operation = add_mod6, identity = 0\<rparr>"
  by (simp add: Monoid_ctor_def Z6_semigroup contains_def Let_def Z6_check_identity
      del: check_identity.simps)

lemma Z6_check_inverses:
  "check_inverses \<lparr>elements = [0, 1, 2, 3, 4, 5], operation = add_mod6, identity = 0\<rparr>
     neg_mod6 [0, 1, 2, 3, 4, 5] = Inr ()"
  by code_simp

lemma Z6_valid: "Group_ctor [0, 1, 2, 3, 4, 5] add_mod6 0 neg_mod6 = Inr Z6"
  by (simp add: Group_ctor_def Z6_monoid Z6_check_inverses Z6_def
      del: check_inverses.simps build_inverse_map.simps)

lemma H03_criterion: "verify_subgroup_criterion H03 = Inr True"
  by code_simp

lemma H03_valid: "Subgroup_ctor Z6 [0, 3] = Inr H03"
  using H03_criterion by (simp add: Subgroup_ctor_def H03_def)

lemma D3_valid: "Group_ctor [0, 1, 2, 3, 4, 5] d3_op 0 d3_inv = Inr D3"
proof -
  have sg: "Semigroup_ctor [0, 1, 2, 3, 4, 5] d3_op
      = Inr \<lparr>elements = [0, 1, 2, 3, 4, 5], operation = d3_op\<rparr>"
  proof -
    have "Groupoid_ctor [0, 1, 2, 3, 4, 5] d3_op
        = Inr \<lparr>elements = [0, 1, 2, 3, 4, 5], operation = d3_op\<rparr>"
      by (simp add: Groupoid_ctor_def contains_def d3_op_def)
    moreover have "is_associative \<lparr>elements = [0, 1, 2, 3, 4, 5], operation = d3_op\<rparr>
        = Inr True"
      by code_simp
    ultimately show ?thesis
      by (simp add: Semigroup_ctor_def)
  qed
  have ci: "check_identity \<lparr>elements = [0, 1, 2, 3, 4, 5], operation = d3_op, identity = 0\<rparr>
      0 [0, 1, 2, 3, 4, 5] = Inr ()"
    by code_simp
  have mon: "Monoid_ctor [0, 1, 2, 3, 4, 5] d3_op 0
      = Inr \<lparr>elements = [0, 1, 2, 3, 4, 5], operation = d3_op, identity = 0\<rparr>"
    by (simp add: Monoid_ctor_def sg contains_def Let_def ci del: check_identity.simps)
  have cv: "check_inverses \<lparr>elements = [0, 1, 2, 3, 4, 5], operation = d3_op, identity = 0\<rparr>
      d3_inv [0, 1, 2, 3, 4, 5] = Inr ()"
    by code_simp
  show ?thesis
    by (simp add: Group_ctor_def mon cv D3_def del: check_inverses.simps build_inverse_map.simps)
qed

lemma K03_valid: "Subgroup_ctor D3 [0, 3] = Inr K03"
proof -
  have "verify_subgroup_criterion K03 = Inr True"
    by code_simp
  then show ?thesis
    by (simp add: Subgroup_ctor_def K03_def)
qed

section \<open>Groupoid: closure is checked once\<close>

lemma operate_closed_scheme:
  assumes "closed_on (set S) op" and "elements k = S" and "operation k = op"
  shows "(contains (elements k) a \<and> contains (elements k) b \<longrightarrow> operate k a b = Inr (op a b))
    \<and> operate k x y \<noteq> Inl ClosureViolationDetected"
  using assms by (auto simp: operate_def contains_def Let_def closed_on_def)

text \<open>
  C9. After a successful construction of a Groupoid, and so of a Semigroup, a Monoid or a
  Group built on it, \<open>operate\<close> on two elements of the carrier returns the result of the
  operation without raising an error. The run-time closure error of \<open>operate\<close> is never
  raised, whatever the arguments: outside the carrier the domain error comes first.
\<close>

theorem operate_after_construction:
  "(Groupoid_ctor S op = Inr g \<longrightarrow>
      (contains (elements g) a \<and> contains (elements g) b \<longrightarrow> operate g a b = Inr (op a b))
      \<and> operate g x y \<noteq> Inl ClosureViolationDetected)
   \<and> (Semigroup_ctor S op = Inr g \<longrightarrow>
      (contains (elements g) a \<and> contains (elements g) b \<longrightarrow> operate g a b = Inr (op a b))
      \<and> operate g x y \<noteq> Inl ClosureViolationDetected)
   \<and> (Monoid_ctor S op e = Inr m \<longrightarrow>
      (contains (elements m) a \<and> contains (elements m) b \<longrightarrow> operate m a b = Inr (op a b))
      \<and> operate m x y \<noteq> Inl ClosureViolationDetected)
   \<and> (Group_ctor S op e f = Inr G \<longrightarrow>
      (contains (elements G) a \<and> contains (elements G) b \<longrightarrow> operate G a b = Inr (op a b))
      \<and> operate G x y \<noteq> Inl ClosureViolationDetected)"
proof -
  have 1: ?thesis if "\<not> closed_on (set S) op"
    using that by (simp add: Groupoid_ctor_iff Semigroup_ctor_iff Monoid_ctor_iff Group_ctor_iff)
  have 2: ?thesis if cl: "closed_on (set S) op"
  proof -
    have g1: "(contains (elements g) a \<and> contains (elements g) b \<longrightarrow> operate g a b = Inr (op a b))
      \<and> operate g x y \<noteq> Inl ClosureViolationDetected" if "Groupoid_ctor S op = Inr g"
    proof -
      from that have "elements g = S" "operation g = op"
        by (simp_all add: Groupoid_ctor_iff)
      then show ?thesis by (rule operate_closed_scheme[OF cl])
    qed
    have g2: "(contains (elements g) a \<and> contains (elements g) b \<longrightarrow> operate g a b = Inr (op a b))
      \<and> operate g x y \<noteq> Inl ClosureViolationDetected" if "Semigroup_ctor S op = Inr g"
    proof -
      from that have "elements g = S" "operation g = op"
        by (simp_all add: Semigroup_ctor_iff)
      then show ?thesis by (rule operate_closed_scheme[OF cl])
    qed
    have g3: "(contains (elements m) a \<and> contains (elements m) b \<longrightarrow> operate m a b = Inr (op a b))
      \<and> operate m x y \<noteq> Inl ClosureViolationDetected" if "Monoid_ctor S op e = Inr m"
    proof -
      from that have "elements m = S" "operation m = op"
        by (simp_all add: Monoid_ctor_iff)
      then show ?thesis by (rule operate_closed_scheme[OF cl])
    qed
    have g4: "(contains (elements G) a \<and> contains (elements G) b \<longrightarrow> operate G a b = Inr (op a b))
      \<and> operate G x y \<noteq> Inl ClosureViolationDetected" if "Group_ctor S op e f = Inr G"
    proof -
      from that have "elements G = S" "operation G = op"
        by (simp_all add: Group_ctor_iff)
      then show ?thesis by (rule operate_closed_scheme[OF cl])
    qed
    show ?thesis
      using g1 g2 g3 g4 by blast
  qed
  show ?thesis
    using 1 2 by blast
qed

theorem operate_after_construction_witness:
  "operate Z6 2 5 = Inr 1 \<and> operate Z6 2 7 = Inl ElementsNotInGroupoid"
proof -
  have "contains (elements Z6) 2 \<and> contains (elements Z6) 5"
    by (simp add: Z6_def contains_def)
  with operate_after_construction[of "[0, 1, 2, 3, 4, 5]" add_mod6 _ 2 5 _ _ 0 _ neg_mod6 Z6]
    Z6_valid
  have "operate Z6 2 5 = Inr (add_mod6 2 5)"
    by blast
  moreover have "operate Z6 2 7 = Inl ElementsNotInGroupoid"
    by (simp add: operate_def Z6_def contains_def)
  ultimately show ?thesis
    by (simp add: add_mod6_def)
qed

section \<open>Group::power outside the carrier\<close>

lemma power_loop_outside:
  assumes "\<not> contains (elements G) a" and "0 < k"
  shows "power_loop G r a k = Inl ElementsNotInGroupoid"
  using assms by (subst power_loop.simps) (simp add: operate_def)

text \<open>
  C10. In a constructed group, \<open>power(a, 0)\<close> is the identity for every argument \<open>a\<close>,
  also outside the carrier; for a nonzero exponent and an argument outside the carrier
  the call throws a \<open>std::domain_error\<close>.
\<close>

theorem power_zero_and_domain:
  assumes "Group_ctor S op e f = Inr G"
  shows "Group_power G a 0 = Inr (identity G)
    \<and> (\<not> contains (elements G) a \<and> n \<noteq> 0
         \<longrightarrow> (\<exists>err. Group_power G a n = Inl err \<and> class_of err = Some domain_error))"
proof (intro conjI impI)
  show "Group_power G a 0 = Inr (identity G)"
    by (simp add: Group_power.simps)
next
  assume h: "\<not> contains (elements G) a \<and> n \<noteq> 0"
  show "\<exists>err. Group_power G a n = Inl err \<and> class_of err = Some domain_error"
  proof (cases "n < 0")
    case True
    then have "Group_power G a n = Inl ElementNotInGroup"
      using h by (subst Group_power.simps) (simp add: Group_inverse_def)
    then show ?thesis by simp
  next
    case False
    then have "0 < nat n" using h by simp
    then have "Group_power G a n = Inl ElementsNotInGroupoid"
      using h False power_loop_outside[of G a "nat n" "identity G"]
      by (subst Group_power.simps) simp
    then show ?thesis by simp
  qed
qed

theorem power_zero_and_domain_witness:
  "Group_power Z6 7 0 = Inr 0 \<and> Group_power Z6 7 3 = Inl ElementsNotInGroupoid
   \<and> Group_power Z6 7 (- 3) = Inl ElementNotInGroup \<and> Group_power Z6 2 (- 2) = Inr 2"
proof -
  have "\<not> contains (elements Z6) 7"
    by (simp add: Z6_def contains_def)
  moreover have "Group_power Z6 7 3 = Inl ElementsNotInGroupoid"
    "Group_power Z6 7 (- 3) = Inl ElementNotInGroup" "Group_power Z6 2 (- 2) = Inr 2"
    by code_simp+
  ultimately show ?thesis
    using power_zero_and_domain[OF Z6_valid, of 7 3] by (simp add: Z6_def)
qed

section \<open>Group construction and the inverse check\<close>

lemma Semigroup_ctor_Inl:
  "Semigroup_ctor S op = Inl err \<Longrightarrow> err = OperationNotClosed \<or> err = NotAssociative"
proof (cases "closed_on (set S) op")
  case True
  assume a: "Semigroup_ctor S op = Inl err"
  have g: "Groupoid_ctor S op = Inr \<lparr>elements = S, operation = op\<rparr>"
    using True by (simp add: Groupoid_ctor_iff)
  have "\<exists>b. is_associative \<lparr>elements = S, operation = op\<rparr> = Inr b"
    using is_associative_closed[of "\<lparr>elements = S, operation = op\<rparr>"] True by simp
  then show ?thesis
    using a by (auto simp: Semigroup_ctor_def g split: if_splits)
next
  case False
  assume a: "Semigroup_ctor S op = Inl err"
  have "Groupoid_ctor S op = Inl OperationNotClosed"
    using False by (simp add: Groupoid_ctor_Inl)
  then show ?thesis
    using a by (simp add: Semigroup_ctor_def)
qed

lemma Monoid_ctor_Inl:
  assumes "Monoid_ctor S op e = Inl err"
  shows "\<not> is_invalid_inverse err"
proof (cases "Semigroup_ctor S op")
  case (Inl err')
  then have "err = err'"
    using assms by (simp add: Monoid_ctor_def)
  then show ?thesis
    using Semigroup_ctor_Inl[OF Inl] by (auto simp: is_invalid_inverse_def)
next
  case (Inr g)
  then have g: "g = \<lparr>elements = S, operation = op\<rparr>" and cl: "closed_on (set S) op"
    by (simp_all add: Semigroup_ctor_iff)
  let ?m = "\<lparr>elements = S, operation = op, identity = e\<rparr>"
  show ?thesis
  proof (cases "e \<in> set S")
    case False
    then have "err = IdentityNotInSet"
      using assms Inr g by (simp add: Monoid_ctor_def contains_def)
    then show ?thesis by (simp add: is_invalid_inverse_def)
  next
    case True
    have ci: "\<forall>err. check_identity ?m e S = Inl err
               \<longrightarrow> err = NotLeftIdentity \<or> err = NotRightIdentity"
      using check_identity_closed[of ?m e S] cl True by simp
    have "check_identity ?m e S = Inl err"
      using assms Inr g True
      by (cases "check_identity ?m e S") (simp_all add: Monoid_ctor_def contains_def)
    with ci show ?thesis
      by (auto simp: is_invalid_inverse_def)
  qed
qed

lemma Group_ctor_after_Monoid:
  assumes "Monoid_ctor S op e = Inr m"
  shows "((\<exists>err. Group_ctor S op e f = Inl err)
           \<longleftrightarrow> (\<exists>a\<in>set S. \<not> contains S (f a) \<or> op a (f a) \<noteq> e \<or> op (f a) a \<noteq> e))
         \<and> (\<forall>err. Group_ctor S op e f = Inl err \<longrightarrow> is_invalid_inverse err)"
proof -
  from assms have m: "m = \<lparr>elements = S, operation = op, identity = e\<rparr>"
    and cl: "closed_on (set S) op"
    by (simp_all add: Monoid_ctor_iff Semigroup_ctor_iff)
  have ci: "(check_inverses m f S = Inr ()
      \<longleftrightarrow> (\<forall>a\<in>set S. f a \<in> set S \<and> op a (f a) = e \<and> op (f a) a = e))
      \<and> (\<forall>err. check_inverses m f S = Inl err \<longrightarrow> is_invalid_inverse err)"
    using check_inverses_closed[of m S f] cl m by simp
  show ?thesis
    using assms ci m
    by (cases "check_inverses m f S") (auto simp: Group_ctor_def contains_def)
qed

lemma mul_mod3_monoid:
  "Monoid_ctor [0, 1, 2] mul_mod3 1 = Inr \<lparr>elements = [0, 1, 2], operation = mul_mod3, identity = 1\<rparr>"
  by (simp add: Monoid_ctor_iff Semigroup_ctor_iff closed_on_def mul_mod3_def)

text \<open>
  C5, as the code has it. The \<open>Group\<close> constructor first runs the \<open>Monoid\<close> constructor.
  When that succeeds, the construction fails exactly when some element of the carrier
  has a supplied inverse outside the carrier or one that is not a two-sided inverse, and
  every failure is then one of the three invalid-inverse errors. When the \<open>Monoid\<close>
  constructor fails, its error is what is thrown, and it is not an invalid-inverse error.
  On the carrier \<open>{0, 1, 2}\<close> with multiplication modulo 3 and the identity 1 the
  construction fails with an invalid-inverse error for every inverse function.
\<close>

theorem Group_ctor_invalid_inverse:
  "(Monoid_ctor S op e = Inr m \<longrightarrow>
      ((\<exists>err. Group_ctor S op e f = Inl err)
         \<longleftrightarrow> (\<exists>a\<in>set S. \<not> contains S (f a) \<or> op a (f a) \<noteq> e \<or> op (f a) a \<noteq> e))
      \<and> (\<forall>err. Group_ctor S op e f = Inl err \<longrightarrow> is_invalid_inverse err))
   \<and> (\<forall>err. Monoid_ctor S op e = Inl err
         \<longrightarrow> Group_ctor S op e f = Inl err \<and> \<not> is_invalid_inverse err)
   \<and> (\<exists>err. Group_ctor [0, 1, 2] mul_mod3 1 f3 = Inl err \<and> is_invalid_inverse err)"
proof (intro conjI)
  show "Monoid_ctor S op e = Inr m \<longrightarrow>
      ((\<exists>err. Group_ctor S op e f = Inl err)
         \<longleftrightarrow> (\<exists>a\<in>set S. \<not> contains S (f a) \<or> op a (f a) \<noteq> e \<or> op (f a) a \<noteq> e))
      \<and> (\<forall>err. Group_ctor S op e f = Inl err \<longrightarrow> is_invalid_inverse err)"
    using Group_ctor_after_Monoid[of S op e m f] by blast
  show "\<forall>err. Monoid_ctor S op e = Inl err
         \<longrightarrow> Group_ctor S op e f = Inl err \<and> \<not> is_invalid_inverse err"
    using Monoid_ctor_Inl[of S op e] by (simp add: Group_ctor_def)
  have "mul_mod3 0 (f3 0) \<noteq> 1"
    by (simp add: mul_mod3_def)
  then have "\<exists>a\<in>set [0, 1, 2]. \<not> contains [0, 1, 2] (f3 a) \<or> mul_mod3 a (f3 a) \<noteq> 1
      \<or> mul_mod3 (f3 a) a \<noteq> 1"
    by simp
  then show "\<exists>err. Group_ctor [0, 1, 2] mul_mod3 1 f3 = Inl err \<and> is_invalid_inverse err"
    using Group_ctor_after_Monoid[OF mul_mod3_monoid, of f3] by blast
qed

theorem Group_ctor_invalid_inverse_witness:
  "Monoid_ctor [0, 1, 2] mul_mod3 1
     = Inr \<lparr>elements = [0, 1, 2], operation = mul_mod3, identity = 1\<rparr>
   \<and> (\<exists>err. Group_ctor [0, 1, 2] mul_mod3 1 id = Inl err \<and> is_invalid_inverse err)
   \<and> Group_ctor [0, 1, 2] mul_mod3 1 id = Inl InverseNotRight"
proof -
  have "mul_mod3 0 0 \<noteq> 1"
    by (simp add: mul_mod3_def)
  then have bad: "\<exists>a\<in>set [0, 1, 2]. \<not> contains [0, 1, 2] (id a)
      \<or> mul_mod3 a (id a) \<noteq> 1 \<or> mul_mod3 (id a) a \<noteq> 1"
    by simp
  have "\<exists>err. Group_ctor [0, 1, 2] mul_mod3 1 id = Inl err \<and> is_invalid_inverse err"
    using Group_ctor_invalid_inverse[of "[0, 1, 2]" mul_mod3 1
        "\<lparr>elements = [0, 1, 2], operation = mul_mod3, identity = 1\<rparr>" id]
      mul_mod3_monoid bad by blast
  moreover have "Group_ctor [0, 1, 2] mul_mod3 1 id = Inl InverseNotRight"
    by (simp add: Group_ctor_def mul_mod3_monoid contains_def operate_def mul_mod3_def)
  ultimately show ?thesis
    using mul_mod3_monoid by simp
qed

text \<open>
  The claim as stated fails in both directions. With addition modulo 3 and the identity
  candidate 1, the function \<open>a \<mapsto> (4 - a) mod 3\<close> gives every element an inverse in the
  carrier with \<open>a \<circ> a\<inverse> = a\<inverse> \<circ> a = 1\<close>, and the construction still fails; with the
  identity function as the inverse function the element 0 has an invalid inverse, and the error reported is the
  identity violation.
\<close>

theorem Group_ctor_invalid_inverse_counterexample:
  "Group_ctor [0, 1, 2] add_mod3 1 four_minus_mod3 = Inl NotLeftIdentity
   \<and> contains [0, 1, 2] (four_minus_mod3 0) \<and> add_mod3 0 (four_minus_mod3 0) = 1
   \<and> add_mod3 (four_minus_mod3 0) 0 = 1
   \<and> contains [0, 1, 2] (four_minus_mod3 1) \<and> add_mod3 1 (four_minus_mod3 1) = 1
   \<and> add_mod3 (four_minus_mod3 1) 1 = 1
   \<and> contains [0, 1, 2] (four_minus_mod3 2) \<and> add_mod3 2 (four_minus_mod3 2) = 1
   \<and> add_mod3 (four_minus_mod3 2) 2 = 1
   \<and> Group_ctor [0, 1, 2] add_mod3 1 id = Inl NotLeftIdentity
   \<and> add_mod3 0 0 \<noteq> 1
   \<and> \<not> is_invalid_inverse NotLeftIdentity"
proof -
  have sg: "Semigroup_ctor [0, 1, 2] add_mod3 = Inr \<lparr>elements = [0, 1, 2], operation = add_mod3\<rparr>"
    by (simp add: Semigroup_ctor_iff closed_on_def add_mod3_def)
  have "Monoid_ctor [0, 1, 2] add_mod3 1 = Inl NotLeftIdentity"
    by (simp add: Monoid_ctor_def sg contains_def operate_def add_mod3_def)
  then show ?thesis
    by (simp add: Group_ctor_def contains_def add_mod3_def four_minus_mod3_def
        is_invalid_inverse_def)
qed

section \<open>Consequences of the group laws\<close>

lemma gl_closed:
  "group_laws G \<Longrightarrow> a \<in> set (elements G) \<Longrightarrow> b \<in> set (elements G)
    \<Longrightarrow> operation G a b \<in> set (elements G)"
  by (simp add: group_laws_def closed_on_def)

lemma gl_assoc:
  "group_laws G \<Longrightarrow> a \<in> set (elements G) \<Longrightarrow> b \<in> set (elements G)
    \<Longrightarrow> c \<in> set (elements G)
    \<Longrightarrow> operation G (operation G a b) c = operation G a (operation G b c)"
  by (simp add: group_laws_def)

lemma gl_id_in: "group_laws G \<Longrightarrow> identity G \<in> set (elements G)"
  by (simp add: group_laws_def)

lemma gl_id_left:
  "group_laws G \<Longrightarrow> a \<in> set (elements G) \<Longrightarrow> operation G (identity G) a = a"
  by (simp add: group_laws_def)

lemma gl_id_right:
  "group_laws G \<Longrightarrow> a \<in> set (elements G) \<Longrightarrow> operation G a (identity G) = a"
  by (simp add: group_laws_def)

lemma gl_inv_in:
  "group_laws G \<Longrightarrow> a \<in> set (elements G) \<Longrightarrow> inverse_func G a \<in> set (elements G)"
  by (simp add: group_laws_def)

lemma gl_inv_right:
  "group_laws G \<Longrightarrow> a \<in> set (elements G)
    \<Longrightarrow> operation G a (inverse_func G a) = identity G"
  by (simp add: group_laws_def)

lemma gl_inv_left:
  "group_laws G \<Longrightarrow> a \<in> set (elements G)
    \<Longrightarrow> operation G (inverse_func G a) a = identity G"
  by (simp add: group_laws_def)

lemma gl_operate:
  "group_laws G \<Longrightarrow> a \<in> set (elements G) \<Longrightarrow> b \<in> set (elements G)
    \<Longrightarrow> operate G a b = Inr (operation G a b)"
  by (simp add: operate_def contains_def gl_closed)

lemma gl_inverse:
  "group_laws G \<Longrightarrow> a \<in> set (elements G) \<Longrightarrow> Group_inverse G a = Inr (inverse_func G a)"
  by (simp add: Group_inverse_def contains_def group_laws_def)

lemma gl_left_cancel:
  assumes "group_laws G" and "a \<in> set (elements G)" and "b \<in> set (elements G)"
    and "c \<in> set (elements G)" and "operation G a b = operation G a c"
  shows "b = c"
proof -
  have "operation G (inverse_func G a) (operation G a b)
      = operation G (inverse_func G a) (operation G a c)"
    using assms(5) by simp
  then have "operation G (operation G (inverse_func G a) a) b
      = operation G (operation G (inverse_func G a) a) c"
    using assms(1-4) by (simp add: gl_assoc gl_inv_in)
  then show ?thesis
    using assms(1-4) by (simp add: gl_inv_left gl_id_left)
qed

lemma gl_right_cancel:
  assumes "group_laws G" and "a \<in> set (elements G)" and "b \<in> set (elements G)"
    and "c \<in> set (elements G)" and "operation G b a = operation G c a"
  shows "b = c"
proof -
  have "operation G (operation G b a) (inverse_func G a)
      = operation G (operation G c a) (inverse_func G a)"
    using assms(5) by simp
  then have "operation G b (operation G a (inverse_func G a))
      = operation G c (operation G a (inverse_func G a))"
    using assms(1-4) by (simp add: gl_assoc gl_inv_in)
  then show ?thesis
    using assms(1-4) by (simp add: gl_inv_right gl_id_right)
qed

lemma gl_inv_unique:
  assumes "group_laws G" and "a \<in> set (elements G)" and "b \<in> set (elements G)"
    and "operation G a b = identity G"
  shows "b = inverse_func G a"
  using assms gl_left_cancel[of G a b "inverse_func G a"]
  by (simp add: gl_inv_right gl_inv_in)

lemma gl_inv_inv:
  assumes "group_laws G" and "a \<in> set (elements G)"
  shows "inverse_func G (inverse_func G a) = a"
  using gl_inv_unique[of G "inverse_func G a" a] assms
  by (simp add: gl_inv_in gl_inv_left)

section \<open>What the Subgroup constructor establishes\<close>

lemma verify_subgroup_criterion_laws:
  assumes "group_laws (parent_group H)"
  shows "verify_subgroup_criterion H = Inr (subgroup_laws H)"
proof (cases "get_subset H \<noteq> [] \<and> set (get_subset H) \<subseteq> set (elements (parent_group H))")
  case False
  then show ?thesis
    by (auto simp: verify_subgroup_criterion_def subgroup_laws_def list_all_iff contains_def)
next
  case True
  let ?G = "parent_group H"
  have inner: "bindE (Group_inverse ?G b) (\<lambda>b_inverse.
             bindE (operate ?G a b_inverse) (\<lambda>product.
             Inr (contains (get_subset H) product)))
      = Inr (operation ?G a (inverse_func ?G b) \<in> set (get_subset H))"
    if "a \<in> set (get_subset H)" "b \<in> set (get_subset H)" for a b
  proof -
    have "a \<in> set (elements ?G)" "b \<in> set (elements ?G)"
      using that True by auto
    then show ?thesis
      using assms by (simp add: gl_inverse gl_operate gl_inv_in contains_def)
  qed
  have 1: "for_all (\<lambda>b.
             bindE (Group_inverse ?G b) (\<lambda>b_inverse.
             bindE (operate ?G a b_inverse) (\<lambda>product.
             Inr (contains (get_subset H) product)))) (get_subset H)
      = Inr (\<forall>b\<in>set (get_subset H). operation ?G a (inverse_func ?G b) \<in> set (get_subset H))"
    if "a \<in> set (get_subset H)" for a
    by (rule for_all_Inr) (simp add: inner that)
  have "for_all (\<lambda>a. for_all (\<lambda>b.
             bindE (Group_inverse ?G b) (\<lambda>b_inverse.
             bindE (operate ?G a b_inverse) (\<lambda>product.
             Inr (contains (get_subset H) product)))) (get_subset H)) (get_subset H)
      = Inr (\<forall>a\<in>set (get_subset H). \<forall>b\<in>set (get_subset H).
               operation ?G a (inverse_func ?G b) \<in> set (get_subset H))"
    by (rule for_all_Inr) (simp add: 1)
  then show ?thesis
    using True
    by (simp add: verify_subgroup_criterion_def subgroup_laws_def list_all_iff contains_def subset_iff)
qed

lemma Subgroup_ctor_iff:
  assumes "group_laws G"
  shows "Subgroup_ctor G sub = Inr H
    \<longleftrightarrow> H = \<lparr>parent_group = G, get_subset = sub\<rparr>
        \<and> subgroup_laws \<lparr>parent_group = G, get_subset = sub\<rparr>"
  using verify_subgroup_criterion_laws[of "\<lparr>parent_group = G, get_subset = sub\<rparr>"] assms
  by (auto simp: Subgroup_ctor_def Let_def)

lemma Subgroup_ctor_laws:
  assumes "group_laws G" and "Subgroup_ctor G sub = Inr H"
  shows "parent_group H = G" "get_subset H = sub" "subgroup_laws H"
  using assms by (auto simp: Subgroup_ctor_iff)

lemma sg_in_group:
  "subgroup_laws H \<Longrightarrow> h \<in> set (get_subset H) \<Longrightarrow> h \<in> set (elements (parent_group H))"
  by (auto simp: subgroup_laws_def)

lemma sg_id:
  assumes "group_laws (parent_group H)" and "subgroup_laws H"
  shows "identity (parent_group H) \<in> set (get_subset H)"
proof -
  from assms(2) obtain h where h: "h \<in> set (get_subset H)"
    by (cases "get_subset H") (auto simp: subgroup_laws_def)
  then have "operation (parent_group H) h (inverse_func (parent_group H) h) \<in> set (get_subset H)"
    using assms(2) by (simp add: subgroup_laws_def)
  then show ?thesis
    using assms h by (simp add: gl_inv_right sg_in_group)
qed

lemma sg_inv:
  assumes "group_laws (parent_group H)" and "subgroup_laws H" and "h \<in> set (get_subset H)"
  shows "inverse_func (parent_group H) h \<in> set (get_subset H)"
proof -
  have "operation (parent_group H) (identity (parent_group H)) (inverse_func (parent_group H) h)
      \<in> set (get_subset H)"
    using assms sg_id[OF assms(1,2)] by (simp add: subgroup_laws_def)
  then show ?thesis
    using assms by (simp add: gl_id_left gl_inv_in sg_in_group)
qed

lemma sg_closed:
  assumes "group_laws (parent_group H)" and "subgroup_laws H"
    and "a \<in> set (get_subset H)" and "b \<in> set (get_subset H)"
  shows "operation (parent_group H) a b \<in> set (get_subset H)"
proof -
  have "operation (parent_group H) a
      (inverse_func (parent_group H) (inverse_func (parent_group H) b)) \<in> set (get_subset H)"
    using assms sg_inv[OF assms(1,2,4)] by (simp add: subgroup_laws_def)
  then show ?thesis
    using assms by (simp add: gl_inv_inv sg_in_group)
qed

section \<open>Sets built by insertion\<close>

lemma set_Set_insert [simp]: "set (Set_insert x xs) = insert x (set xs)"
  by (auto simp: Set_insert_def contains_def set_insort_key)

lemma Set_inv_Set_insert: "Set_inv xs \<Longrightarrow> Set_inv (Set_insert x xs)"
  by (auto simp: Set_insert_def Set_inv_def contains_def sorted_insort distinct_insort)

lemma Set_inv_Nil [simp]: "Set_inv []"
  by (simp add: Set_inv_def)

lemma Set_inv_unique: "Set_inv xs \<Longrightarrow> Set_inv ys \<Longrightarrow> set xs = set ys \<Longrightarrow> xs = ys"
  by (simp add: Set_inv_def sorted_distinct_set_unique)

lemma Set_inv_sorted_list_of_set [simp]: "Set_inv (sorted_list_of_set A)"
  by (simp add: Set_inv_def)

lemma Set_inv_card: "Set_inv xs \<Longrightarrow> card (set xs) = Set_size xs"
  by (simp add: Set_inv_def Set_size_def distinct_card)

lemma insert_each_Inr:
  assumes "\<And>x. x \<in> set xs \<Longrightarrow> f x = Inr (f' x)"
  shows "\<exists>r. insert_each f xs acc = Inr r \<and> set r = set acc \<union> f' ` set xs
    \<and> (Set_inv acc \<longrightarrow> Set_inv r)"
  using assms
proof (induction xs arbitrary: acc)
  case Nil
  then show ?case by simp
next
  case (Cons x xs)
  have "f x = Inr (f' x)"
    using Cons.prems by simp
  moreover obtain r where "insert_each f xs (Set_insert (f' x) acc) = Inr r"
    "set r = set (Set_insert (f' x) acc) \<union> f' ` set xs"
    "Set_inv (Set_insert (f' x) acc) \<longrightarrow> Set_inv r"
    using Cons.IH[of "Set_insert (f' x) acc"] Cons.prems by auto
  ultimately show ?case
    by (auto simp: Set_inv_Set_insert)
qed

lemma insert_each_sorted_list:
  assumes "\<And>x. x \<in> set xs \<Longrightarrow> f x = Inr (f' x)"
  shows "insert_each f xs [] = Inr (sorted_list_of_set (f' ` set xs))"
proof -
  obtain r where r: "insert_each f xs [] = Inr r" "set r = f' ` set xs" "Set_inv r"
    using insert_each_Inr[of xs f f' "[]"] assms by auto
  have "r = sorted_list_of_set (f' ` set xs)"
    by (rule Set_inv_unique) (simp_all add: r)
  then show ?thesis
    using r(1) by simp
qed

lemma build_coset_LEFT:
  assumes "group_laws G" and "subgroup_laws H" and "parent_group H = G"
    and "g \<in> set (elements G)"
  shows "build_coset G H g LEFT = Inr (sorted_list_of_set (left_coset_of G H g))"
proof -
  have in_group: "h \<in> set (elements G)" if "h \<in> set (get_subset H)" for h
    using sg_in_group[OF assms(2) that] assms(3) by simp
  have "insert_each (\<lambda>h. operate G g h) (get_subset H) []
      = Inr (sorted_list_of_set ((\<lambda>h. operation G g h) ` set (get_subset H)))"
    by (rule insert_each_sorted_list) (simp add: gl_operate assms(1,4) in_group)
  then show ?thesis
    by (simp add: build_coset_def left_coset_of_def)
qed

lemma build_coset_RIGHT:
  assumes "group_laws G" and "subgroup_laws H" and "parent_group H = G"
    and "g \<in> set (elements G)"
  shows "build_coset G H g RIGHT = Inr (sorted_list_of_set (right_coset_of G H g))"
proof -
  have in_group: "h \<in> set (elements G)" if "h \<in> set (get_subset H)" for h
    using sg_in_group[OF assms(2) that] assms(3) by simp
  have "insert_each (\<lambda>h. operate G h g) (get_subset H) []
      = Inr (sorted_list_of_set ((\<lambda>h. operation G h g) ` set (get_subset H)))"
    by (rule insert_each_sorted_list) (simp add: gl_operate assms(1,4) in_group)
  then show ?thesis
    by (simp add: build_coset_def right_coset_of_def)
qed

lemma build_coset_outside:
  assumes "subgroup_laws H" and "\<not> contains (elements G) g"
  shows "build_coset G H g ty = Inl ElementsNotInGroupoid"
proof -
  from assms(1) obtain h hs where "get_subset H = h # hs"
    by (cases "get_subset H") (auto simp: subgroup_laws_def)
  then show ?thesis
    using assms(2) by (simp add: build_coset_def operate_def)
qed

section \<open>Coset construction\<close>

text \<open>
  C6, as the code has it. For a constructed group and a validated subgroup of it, the
  \<open>Coset\<close> constructor succeeds, on either side, for every representative that belongs
  to the carrier of the group, and the object holds the left or right translate of the
  subgroup. For a representative outside the carrier the constructor throws the domain
  error of \<open>Groupoid::operate\<close>.
\<close>

theorem Coset_ctor_succeeds_on_carrier:
  assumes "Group_ctor S op e f = Inr G" and "Subgroup_ctor G sub = Inr H"
  shows "(contains (elements G) rep \<longrightarrow>
            (\<exists>c. Coset_ctor G H rep ty = Inr c \<and> representative c = rep \<and> coset_type c = ty
               \<and> set (coset c) = (if ty = LEFT then left_coset_of G H rep
                                    else right_coset_of G H rep)))
         \<and> (\<not> contains (elements G) rep \<longrightarrow> Coset_ctor G H rep ty = Inl ElementsNotInGroupoid)"
proof -
  have gl: "group_laws G"
    using assms(1) by (rule Group_ctor_laws)
  have sl: "subgroup_laws H" and pg: "parent_group H = G"
    using Subgroup_ctor_laws[OF gl assms(2)] by simp_all
  have fin: "finite (left_coset_of G H rep)" "finite (right_coset_of G H rep)"
    by (simp_all add: left_coset_of_def right_coset_of_def)
  show ?thesis
  proof (cases "contains (elements G) rep")
    case True
    then have "rep \<in> set (elements G)"
      by (simp add: contains_def)
    then show ?thesis
      using True fin build_coset_LEFT[OF gl sl pg] build_coset_RIGHT[OF gl sl pg]
      by (cases ty) (simp_all add: Coset_ctor_def)
  next
    case False
    then show ?thesis
      using build_coset_outside[OF sl False] by (simp add: Coset_ctor_def)
  qed
qed

theorem Coset_ctor_succeeds_on_carrier_witness:
  "(\<exists>c. Coset_ctor Z6 H03 1 LEFT = Inr c \<and> coset c = [1, 4])
   \<and> Coset_ctor Z6 H03 7 LEFT = Inl ElementsNotInGroupoid"
proof -
  have in1: "contains (elements Z6) 1" and out7: "\<not> contains (elements Z6) 7"
    by (simp_all add: Z6_def contains_def)
  have "build_coset Z6 H03 1 LEFT = Inr [1, 4]"
    by code_simp
  then have "\<exists>c. Coset_ctor Z6 H03 1 LEFT = Inr c \<and> coset c = [1, 4]"
    by (simp add: Coset_ctor_def)
  then show ?thesis
    using Coset_ctor_succeeds_on_carrier[OF Z6_valid H03_valid, of 7 LEFT] out7 by simp
qed

text \<open>
  The claim as stated fails for a representative that is not an element of the group:
  7 is an \<open>int\<close>, the group is the constructed \<open>Z6\<close> and the subgroup the validated
  \<open>{0, 3}\<close>, and the constructor throws on either side.
\<close>

theorem Coset_ctor_counterexample:
  "Group_ctor [0, 1, 2, 3, 4, 5] add_mod6 0 neg_mod6 = Inr Z6
   \<and> Subgroup_ctor Z6 [0, 3] = Inr H03
   \<and> Coset_ctor Z6 H03 7 LEFT = Inl ElementsNotInGroupoid
   \<and> Coset_ctor Z6 H03 7 RIGHT = Inl ElementsNotInGroupoid"
proof -
  have "build_coset Z6 H03 7 LEFT = Inl ElementsNotInGroupoid"
    "build_coset Z6 H03 7 RIGHT = Inl ElementsNotInGroupoid"
    by code_simp+
  then show ?thesis
    using Z6_valid H03_valid by (simp add: Coset_ctor_def)
qed

section \<open>The two normality checks\<close>

lemma verify_normal_laws:
  assumes "group_laws (parent_group N)" and "subgroup_laws N"
  shows "verify_normal N = Inr (normal_laws N)"
proof -
  let ?G = "parent_group N"
  have inner: "bindE (Group_inverse ?G g) (\<lambda>g_inverse.
        bindE (operate ?G g n) (\<lambda>gn.
        bindE (operate ?G gn g_inverse) (\<lambda>conjugate.
        Inr (contains (get_subset N) conjugate))))
      = Inr (operation ?G (operation ?G g n) (inverse_func ?G g) \<in> set (get_subset N))"
    if "g \<in> set (elements ?G)" "n \<in> set (get_subset N)" for g n
  proof -
    have "n \<in> set (elements ?G)"
      using that assms(2) by (simp add: sg_in_group)
    then show ?thesis
      using assms(1) that(1) by (simp add: gl_inverse gl_operate gl_closed gl_inv_in contains_def)
  qed
  have 1: "for_all (\<lambda>n.
        bindE (Group_inverse ?G g) (\<lambda>g_inverse.
        bindE (operate ?G g n) (\<lambda>gn.
        bindE (operate ?G gn g_inverse) (\<lambda>conjugate.
        Inr (contains (get_subset N) conjugate))))) (get_subset N)
      = Inr (\<forall>n\<in>set (get_subset N).
          operation ?G (operation ?G g n) (inverse_func ?G g) \<in> set (get_subset N))"
    if "g \<in> set (elements ?G)" for g
    by (rule for_all_Inr) (simp add: inner that)
  show ?thesis
    unfolding verify_normal_def normal_laws_def
    by (rule for_all_Inr) (simp add: 1)
qed

lemma verify_normal_via_cosets_laws:
  assumes "group_laws (parent_group N)" and "subgroup_laws N"
  shows "verify_normal_via_cosets N
    = Inr (\<forall>g\<in>set (elements (parent_group N)).
            left_coset_of (parent_group N) N g = right_coset_of (parent_group N) N g)"
proof -
  let ?G = "parent_group N"
  have inner: "bindE (insert_each (\<lambda>n. operate ?G g n) (get_subset N) []) (\<lambda>left_coset.
        bindE (insert_each (\<lambda>n. operate ?G n g) (get_subset N) []) (\<lambda>right_coset.
        Inr (left_coset = right_coset)))
      = Inr (left_coset_of ?G N g = right_coset_of ?G N g)"
    if "g \<in> set (elements ?G)" for g
  proof -
    have l: "insert_each (\<lambda>n. operate ?G g n) (get_subset N) []
        = Inr (sorted_list_of_set (left_coset_of ?G N g))"
      using build_coset_LEFT[OF assms(1,2) refl that] by (simp add: build_coset_def)
    have r: "insert_each (\<lambda>n. operate ?G n g) (get_subset N) []
        = Inr (sorted_list_of_set (right_coset_of ?G N g))"
      using build_coset_RIGHT[OF assms(1,2) refl that] by (simp add: build_coset_def)
    have "finite (left_coset_of ?G N g)" "finite (right_coset_of ?G N g)"
      by (simp_all add: left_coset_of_def right_coset_of_def)
    then have "sorted_list_of_set (left_coset_of ?G N g) = sorted_list_of_set (right_coset_of ?G N g)
        \<longleftrightarrow> left_coset_of ?G N g = right_coset_of ?G N g"
      by (metis set_sorted_list_of_set)
    then show ?thesis
      by (simp add: l r)
  qed
  show ?thesis
    unfolding verify_normal_via_cosets_def
    by (rule for_all_Inr) (simp add: inner)
qed

lemma normal_imp_cosets_agree:
  assumes gl: "group_laws (parent_group N)" and sl: "subgroup_laws N" and nl: "normal_laws N"
    and g: "g \<in> set (elements (parent_group N))"
  shows "left_coset_of (parent_group N) N g = right_coset_of (parent_group N) N g"
proof (intro set_eqI iffI)
  let ?G = "parent_group N"
  have gi: "inverse_func ?G g \<in> set (elements ?G)"
    using gl g by (rule gl_inv_in)
  fix x
  assume "x \<in> left_coset_of ?G N g"
  then obtain n where n: "n \<in> set (get_subset N)" and x: "x = operation ?G g n"
    by (auto simp: left_coset_of_def)
  have nG: "n \<in> set (elements ?G)"
    using sl n by (rule sg_in_group)
  let ?c = "operation ?G (operation ?G g n) (inverse_func ?G g)"
  have c: "?c \<in> set (get_subset N)"
    using nl g n by (simp add: normal_laws_def)
  have "operation ?G ?c g = operation ?G (operation ?G g n) (operation ?G (inverse_func ?G g) g)"
    using gl g nG gi by (simp add: gl_assoc gl_closed)
  also have "\<dots> = x"
    using gl g nG by (simp add: gl_inv_left gl_id_right gl_closed x)
  finally show "x \<in> right_coset_of ?G N g"
    using c by (auto simp: right_coset_of_def)
next
  let ?G = "parent_group N"
  have gi: "inverse_func ?G g \<in> set (elements ?G)"
    using gl g by (rule gl_inv_in)
  fix x
  assume "x \<in> right_coset_of ?G N g"
  then obtain n where n: "n \<in> set (get_subset N)" and x: "x = operation ?G n g"
    by (auto simp: right_coset_of_def)
  have nG: "n \<in> set (elements ?G)"
    using sl n by (rule sg_in_group)
  let ?c = "operation ?G (operation ?G (inverse_func ?G g) n) g"
  have "operation ?G (operation ?G (inverse_func ?G g) n) (inverse_func ?G (inverse_func ?G g))
      \<in> set (get_subset N)"
    using nl gi n by (simp add: normal_laws_def)
  then have c: "?c \<in> set (get_subset N)"
    using gl g by (simp add: gl_inv_inv)
  have "operation ?G g ?c = operation ?G (operation ?G (operation ?G g (inverse_func ?G g)) n) g"
    using gl g nG gi by (simp add: gl_assoc gl_closed)
  also have "\<dots> = x"
    using gl g nG by (simp add: gl_inv_right gl_id_left x)
  finally show "x \<in> left_coset_of ?G N g"
    using c by (auto simp: left_coset_of_def)
qed

lemma cosets_agree_imp_normal:
  assumes gl: "group_laws (parent_group N)" and sl: "subgroup_laws N"
    and eq: "\<forall>g\<in>set (elements (parent_group N)).
      left_coset_of (parent_group N) N g = right_coset_of (parent_group N) N g"
  shows "normal_laws N"
  unfolding normal_laws_def
proof (intro ballI)
  let ?G = "parent_group N"
  fix g n
  assume g: "g \<in> set (elements ?G)" and n: "n \<in> set (get_subset N)"
  have gi: "inverse_func ?G g \<in> set (elements ?G)"
    using gl g by (rule gl_inv_in)
  have "operation ?G g n \<in> left_coset_of ?G N g"
    using n by (auto simp: left_coset_of_def)
  then have "operation ?G g n \<in> right_coset_of ?G N g"
    using eq g by simp
  then obtain n' where n': "n' \<in> set (get_subset N)"
    and e: "operation ?G g n = operation ?G n' g"
    by (auto simp: right_coset_of_def)
  have n'G: "n' \<in> set (elements ?G)"
    using sl n' by (rule sg_in_group)
  have "operation ?G (operation ?G g n) (inverse_func ?G g)
      = operation ?G n' (operation ?G g (inverse_func ?G g))"
    using gl g n'G gi by (simp add: e gl_assoc)
  also have "\<dots> = n'"
    using gl g n'G by (simp add: gl_inv_right gl_id_right)
  finally show "operation ?G (operation ?G g n) (inverse_func ?G g) \<in> set (get_subset N)"
    using n' by simp
qed

text \<open>
  C4. For a validated subgroup of a constructed group, \<open>verify_normal\<close> and
  \<open>verify_normal_via_cosets\<close> both return, and return the same value: true exactly when
  the subgroup is closed under conjugation, which is exactly when every left coset equals
  the right coset of the same element.
\<close>

theorem normality_checks_agree:
  assumes "Group_ctor S op e f = Inr G" and "Subgroup_ctor G sub = Inr N"
  shows "\<exists>b. verify_normal N = Inr b \<and> verify_normal_via_cosets N = Inr b
    \<and> (b \<longleftrightarrow> normal_laws N)
    \<and> (b \<longleftrightarrow> (\<forall>g\<in>set (elements G). left_coset_of G N g = right_coset_of G N g))"
proof -
  have gl: "group_laws G"
    using assms(1) by (rule Group_ctor_laws)
  have sl: "subgroup_laws N" and pg: "parent_group N = G"
    using Subgroup_ctor_laws[OF gl assms(2)] by simp_all
  have gl': "group_laws (parent_group N)"
    using gl pg by simp
  have eq: "normal_laws N
      \<longleftrightarrow> (\<forall>g\<in>set (elements G). left_coset_of G N g = right_coset_of G N g)"
    using normal_imp_cosets_agree[OF gl' sl] cosets_agree_imp_normal[OF gl' sl] pg by auto
  show ?thesis
    using verify_normal_laws[OF gl' sl] verify_normal_via_cosets_laws[OF gl' sl] eq pg
    by simp
qed

theorem normality_checks_agree_witness:
  "verify_normal H03 = Inr True \<and> verify_normal_via_cosets H03 = Inr True
   \<and> verify_normal K03 = Inr False \<and> verify_normal_via_cosets K03 = Inr False"
proof -
  have "verify_normal H03 = Inr True" "verify_normal K03 = Inr False"
    by code_simp+
  then show ?thesis
    using normality_checks_agree[OF Z6_valid H03_valid]
      normality_checks_agree[OF D3_valid K03_valid] by auto
qed

section \<open>Powers of an element\<close>

lemma npow_in:
  "group_laws G \<Longrightarrow> a \<in> set (elements G) \<Longrightarrow> npow G a n \<in> set (elements G)"
  by (induction n) (simp_all add: gl_id_in gl_closed)

lemma npow_add:
  assumes "group_laws G" and "a \<in> set (elements G)"
  shows "npow G a (m + n) = operation G (npow G a m) (npow G a n)"
proof (induction n)
  case 0
  then show ?case
    using assms by (simp add: gl_id_right npow_in)
next
  case (Suc n)
  have "npow G a (m + Suc n) = operation G (operation G (npow G a m) (npow G a n)) a"
    using Suc by simp
  also have "\<dots> = operation G (npow G a m) (operation G (npow G a n) a)"
    using assms by (simp add: gl_assoc npow_in)
  finally show ?case by simp
qed

lemma npow_Suc_left:
  assumes "group_laws G" and "a \<in> set (elements G)"
  shows "operation G a (npow G a n) = npow G a (Suc n)"
  using npow_add[OF assms, of "Suc 0" n] assms by (simp add: gl_id_left)

lemma npow_square:
  assumes "group_laws G" and "a \<in> set (elements G)"
  shows "npow G (operation G a a) n = npow G a (2 * n)"
proof (induction n)
  case 0
  then show ?case by simp
next
  case (Suc n)
  have "npow G (operation G a a) (Suc n) = operation G (npow G a (2 * n)) (operation G a a)"
    using Suc by simp
  also have "\<dots> = operation G (operation G (npow G a (2 * n)) a) a"
    using assms by (simp add: gl_assoc npow_in)
  finally show ?case by simp
qed

lemma power_loop_correct:
  assumes gl: "group_laws G"
  shows "r \<in> set (elements G) \<Longrightarrow> c \<in> set (elements G)
    \<Longrightarrow> power_loop G r c k = Inr (operation G r (npow G c k))"
proof (induction k arbitrary: r c rule: less_induct)
  case (less k)
  note r = less.prems(1) and c = less.prems(2)
  show ?case
  proof (cases "k = 0")
    case True
    then show ?thesis
      using gl r by (subst power_loop.simps) (simp add: gl_id_right)
  next
    case False
    then have half: "k div 2 < k" by simp
    have cc: "operation G c c \<in> set (elements G)"
      using gl c by (simp add: gl_closed)
    show ?thesis
    proof (cases "k mod 2 = 1")
      case True
      then have k: "k = Suc (2 * (k div 2))"
        by presburger
      have rc: "operation G r c \<in> set (elements G)"
        using gl r c by (simp add: gl_closed)
      have "power_loop G r c k = power_loop G (operation G r c) (operation G c c) (k div 2)"
        using gl r c True False by (subst power_loop.simps) (simp add: gl_operate)
      also have "\<dots> = Inr (operation G (operation G r c) (npow G (operation G c c) (k div 2)))"
        by (rule less.IH[OF half rc cc])
      also have "operation G (operation G r c) (npow G (operation G c c) (k div 2))
          = operation G r (operation G c (npow G c (2 * (k div 2))))"
        using gl r c by (simp add: npow_square gl_assoc npow_in)
      also have "operation G c (npow G c (2 * (k div 2))) = npow G c k"
        using npow_Suc_left[OF gl c, of "2 * (k div 2)"] k by simp
      finally show ?thesis .
    next
      case odd: False
      then have k: "k = 2 * (k div 2)"
        by presburger
      have "power_loop G r c k = power_loop G r (operation G c c) (k div 2)"
        using gl r c odd False by (subst power_loop.simps) (simp add: gl_operate)
      also have "\<dots> = Inr (operation G r (npow G (operation G c c) (k div 2)))"
        by (rule less.IH[OF half r cc])
      also have "npow G (operation G c c) (k div 2) = npow G c k"
        using npow_square[OF gl c, of "k div 2"] k by simp
      finally show ?thesis .
    qed
  qed
qed

lemma Group_power_nat:
  assumes "group_laws G" and "a \<in> set (elements G)"
  shows "Group_power G a (int n) = Inr (npow G a n)"
proof (cases "n = 0")
  case True
  then show ?thesis
    by (subst Group_power.simps) simp
next
  case False
  have "Group_power G a (int n) = power_loop G (identity G) a n"
    using False by (subst Group_power.simps) simp
  then show ?thesis
    using assms by (simp add: power_loop_correct gl_id_in gl_id_left npow_in)
qed

section \<open>ElementOrder::compute\<close>

lemma compute_loop_spec:
  assumes gl: "group_laws G" and a: "a \<in> set (elements G)"
  shows "current = npow G a n \<Longrightarrow>
    \<exists>r. compute_loop G a N current n = Inr r
      \<and> (\<forall>k. r = Some k \<longleftrightarrow> (n \<le> k \<and> k \<le> N \<and> npow G a k = identity G
             \<and> (\<forall>j. n \<le> j \<and> j < k \<longrightarrow> npow G a j \<noteq> identity G)))
      \<and> (r = None \<longleftrightarrow> (\<forall>k. n \<le> k \<and> k \<le> N \<longrightarrow> npow G a k \<noteq> identity G))"
proof (induction "N + 1 - n" arbitrary: n current)
  case 0
  then have "N < n" by simp
  then have "compute_loop G a N current n = Inr None"
    by (subst compute_loop.simps) simp
  then show ?case
    using \<open>N < n\<close> by auto
next
  case (Suc d)
  then have n: "n \<le> N" by simp
  show ?case
  proof (cases "npow G a n = identity G")
    case True
    then have "compute_loop G a N current n = Inr (Some n)"
      using n Suc.prems by (subst compute_loop.simps) simp
    moreover have "\<forall>k. Some n = Some k \<longleftrightarrow> (n \<le> k \<and> k \<le> N \<and> npow G a k = identity G
             \<and> (\<forall>j. n \<le> j \<and> j < k \<longrightarrow> npow G a j \<noteq> identity G))"
    proof (intro allI iffI)
      fix k
      assume "Some n = Some k"
      then show "n \<le> k \<and> k \<le> N \<and> npow G a k = identity G
             \<and> (\<forall>j. n \<le> j \<and> j < k \<longrightarrow> npow G a j \<noteq> identity G)"
        using True n by auto
    next
      fix k
      assume k: "n \<le> k \<and> k \<le> N \<and> npow G a k = identity G
             \<and> (\<forall>j. n \<le> j \<and> j < k \<longrightarrow> npow G a j \<noteq> identity G)"
      have "\<not> n < k"
        using k True by blast
      then show "Some n = Some k"
        using k by simp
    qed
    moreover have "\<not> (\<forall>k. n \<le> k \<and> k \<le> N \<longrightarrow> npow G a k \<noteq> identity G)"
      using True n by blast
    ultimately show ?thesis
      by simp
  next
    case False
    have step: "compute_loop G a N current n
        = compute_loop G a N (npow G a (Suc n)) (n + 1)"
      using n False Suc.prems gl a
      by (subst compute_loop.simps) (simp add: gl_operate npow_in)
    have d: "d = N + 1 - (n + 1)"
      using Suc.hyps(2) by simp
    obtain r where r: "compute_loop G a N (npow G a (Suc n)) (n + 1) = Inr r"
      and rs: "\<forall>k. r = Some k \<longleftrightarrow> (n + 1 \<le> k \<and> k \<le> N \<and> npow G a k = identity G
             \<and> (\<forall>j. n + 1 \<le> j \<and> j < k \<longrightarrow> npow G a j \<noteq> identity G))"
      and rn: "r = None \<longleftrightarrow> (\<forall>k. n + 1 \<le> k \<and> k \<le> N \<longrightarrow> npow G a k \<noteq> identity G)"
      using Suc.hyps(1)[OF d, of "npow G a (Suc n)"] by auto
    have shift: "(n \<le> k \<and> npow G a k = identity G) \<longleftrightarrow> (n + 1 \<le> k \<and> npow G a k = identity G)"
      for k
      using False by (cases "k = n") auto
    have shift2: "(\<forall>j. n \<le> j \<and> j < k \<longrightarrow> npow G a j \<noteq> identity G)
        \<longleftrightarrow> (\<forall>j. n + 1 \<le> j \<and> j < k \<longrightarrow> npow G a j \<noteq> identity G)" for k
    proof (intro iffI allI impI)
      fix j
      assume "\<forall>j. n \<le> j \<and> j < k \<longrightarrow> npow G a j \<noteq> identity G" and "n + 1 \<le> j \<and> j < k"
      then show "npow G a j \<noteq> identity G"
        by simp
    next
      fix j
      assume h: "\<forall>j. n + 1 \<le> j \<and> j < k \<longrightarrow> npow G a j \<noteq> identity G" and j: "n \<le> j \<and> j < k"
      show "npow G a j \<noteq> identity G"
      proof (cases "j = n")
        case True
        then show ?thesis using False by simp
      next
        case neq: False
        then have "n + 1 \<le> j \<and> j < k" using j by simp
        then show ?thesis using h by blast
      qed
    qed
    have "\<forall>k. r = Some k \<longleftrightarrow> (n \<le> k \<and> k \<le> N \<and> npow G a k = identity G
             \<and> (\<forall>j. n \<le> j \<and> j < k \<longrightarrow> npow G a j \<noteq> identity G))"
      using rs shift shift2 by auto
    moreover have "r = None \<longleftrightarrow> (\<forall>k. n \<le> k \<and> k \<le> N \<longrightarrow> npow G a k \<noteq> identity G)"
      using rn shift by auto
    ultimately show ?thesis
      using step r by simp
  qed
qed

lemma ElementOrder_compute_npow:
  assumes gl: "group_laws G" and a: "a \<in> set (elements G)"
  shows "\<exists>r. ElementOrder_compute G a = Inr r
      \<and> (\<forall>k. r = Some k \<longleftrightarrow> (0 < k \<and> k \<le> Set_size (elements G) \<and> npow G a k = identity G
             \<and> (\<forall>j. 0 < j \<and> j < k \<longrightarrow> npow G a j \<noteq> identity G)))
      \<and> (r = None \<longleftrightarrow> (\<forall>k. 0 < k \<and> k \<le> Set_size (elements G)
             \<longrightarrow> npow G a k \<noteq> identity G))"
proof (cases "a = identity G")
  case True
  have size: "1 \<le> Set_size (elements G)"
    using a by (cases "elements G") (simp_all add: Set_size_def)
  have one: "npow G a 1 = identity G"
    using gl a True by (simp add: gl_id_left)
  have "ElementOrder_compute G a = Inr (Some 1)"
    using a True by (simp add: ElementOrder_compute_def contains_def)
  moreover have "\<forall>k. Some 1 = Some k \<longleftrightarrow> (0 < k \<and> k \<le> Set_size (elements G)
        \<and> npow G a k = identity G \<and> (\<forall>j. 0 < j \<and> j < k \<longrightarrow> npow G a j \<noteq> identity G))"
  proof (intro allI iffI)
    fix k :: nat
    assume "Some 1 = Some k"
    then have "k = 1" by simp
    then show "0 < k \<and> k \<le> Set_size (elements G)
        \<and> npow G a k = identity G \<and> (\<forall>j. 0 < j \<and> j < k \<longrightarrow> npow G a j \<noteq> identity G)"
      using size one by auto
  next
    fix k :: nat
    assume k: "0 < k \<and> k \<le> Set_size (elements G)
        \<and> npow G a k = identity G \<and> (\<forall>j. 0 < j \<and> j < k \<longrightarrow> npow G a j \<noteq> identity G)"
    have "\<not> 1 < k"
      using k one by (metis zero_less_one)
    then show "Some 1 = Some k"
      using k by simp
  qed
  moreover have "\<not> (\<forall>k. 0 < k \<and> k \<le> Set_size (elements G) \<longrightarrow> npow G a k \<noteq> identity G)"
    using size one by (metis zero_less_one)
  ultimately show ?thesis
    by simp
next
  case False
  have "a = npow G a 1"
    using gl a by (simp add: gl_id_left)
  then obtain r where r: "compute_loop G a (Set_size (elements G)) a 1 = Inr r"
    and rs: "\<forall>k. r = Some k \<longleftrightarrow> (1 \<le> k \<and> k \<le> Set_size (elements G)
             \<and> npow G a k = identity G
             \<and> (\<forall>j. 1 \<le> j \<and> j < k \<longrightarrow> npow G a j \<noteq> identity G))"
    and rn: "r = None \<longleftrightarrow> (\<forall>k. 1 \<le> k \<and> k \<le> Set_size (elements G)
             \<longrightarrow> npow G a k \<noteq> identity G)"
    using compute_loop_spec[OF gl a, of a 1 "Set_size (elements G)"] by auto
  have "ElementOrder_compute G a = Inr r"
    using a False r by (simp add: ElementOrder_compute_def contains_def)
  then show ?thesis
    using rs rn by (simp add: Suc_le_eq)
qed

text \<open>
  C3. For a constructed group and an element \<open>a\<close> of its carrier, \<open>ElementOrder::compute\<close>
  returns without throwing. It returns \<open>n\<close> exactly when \<open>n\<close> is the least positive
  exponent, at most \<open>|G|\<close>, with \<open>power(a, n)\<close> the identity; it returns the absent value
  exactly when no positive exponent up to \<open>|G|\<close> gives the identity; it never returns 0;
  and for the identity it returns 1.
\<close>

theorem ElementOrder_compute_spec:
  assumes "Group_ctor S op e f = Inr G" and "contains (elements G) a"
  shows "\<exists>r. ElementOrder_compute G a = Inr r \<and> r \<noteq> Some 0
      \<and> (\<forall>n. r = Some n \<longleftrightarrow>
            (0 < n \<and> n \<le> Set_size (elements G) \<and> Group_power G a (int n) = Inr (identity G)
             \<and> (\<forall>m. 0 < m \<and> m < n \<longrightarrow> Group_power G a (int m) \<noteq> Inr (identity G))))
      \<and> (r = None \<longleftrightarrow> (\<forall>n. 0 < n \<and> n \<le> Set_size (elements G)
             \<longrightarrow> Group_power G a (int n) \<noteq> Inr (identity G)))
      \<and> ElementOrder_compute G (identity G) = Inr (Some 1)"
proof -
  have gl: "group_laws G"
    using assms(1) by (rule Group_ctor_laws)
  have a: "a \<in> set (elements G)"
    using assms(2) by (simp add: contains_def)
  have pw: "Group_power G a (int n) = Inr (identity G) \<longleftrightarrow> npow G a n = identity G" for n
    by (simp add: Group_power_nat[OF gl a])
  have id: "ElementOrder_compute G (identity G) = Inr (Some 1)"
    using gl by (simp add: ElementOrder_compute_def contains_def gl_id_in)
  obtain r where r: "ElementOrder_compute G a = Inr r"
    and rs: "\<forall>k. r = Some k \<longleftrightarrow> (0 < k \<and> k \<le> Set_size (elements G)
             \<and> npow G a k = identity G
             \<and> (\<forall>j. 0 < j \<and> j < k \<longrightarrow> npow G a j \<noteq> identity G))"
    and rn: "r = None \<longleftrightarrow> (\<forall>k. 0 < k \<and> k \<le> Set_size (elements G)
             \<longrightarrow> npow G a k \<noteq> identity G)"
    using ElementOrder_compute_npow[OF gl a] by auto
  have "r \<noteq> Some 0"
    using rs by auto
  then show ?thesis
    using r rs rn id by (simp add: pw)
qed

theorem ElementOrder_compute_spec_witness:
  "ElementOrder_compute Z6 2 = Inr (Some 3) \<and> Group_power Z6 2 3 = Inr 0
   \<and> Group_power Z6 2 1 \<noteq> Inr 0 \<and> Group_power Z6 2 2 \<noteq> Inr 0
   \<and> ElementOrder_compute Z6 0 = Inr (Some 1)"
proof -
  have c: "contains (elements Z6) 2"
    by (simp add: Z6_def contains_def)
  have v: "ElementOrder_compute Z6 2 = Inr (Some 3)"
    by code_simp
  obtain r where r: "ElementOrder_compute Z6 2 = Inr r"
    and rs: "\<forall>n. r = Some n \<longleftrightarrow>
            (0 < n \<and> n \<le> Set_size (elements Z6) \<and> Group_power Z6 2 (int n) = Inr (identity Z6)
             \<and> (\<forall>m. 0 < m \<and> m < n \<longrightarrow> Group_power Z6 2 (int m) \<noteq> Inr (identity Z6)))"
    and i: "ElementOrder_compute Z6 (identity Z6) = Inr (Some 1)"
    using ElementOrder_compute_spec[OF Z6_valid c] by blast
  have r3: "r = Some 3"
    using r v by simp
  have idz: "identity Z6 = 0"
    by (simp add: Z6_def)
  have h: "Group_power Z6 2 (int 3) = Inr (identity Z6)
      \<and> (\<forall>m. 0 < m \<and> m < 3 \<longrightarrow> Group_power Z6 2 (int m) \<noteq> Inr (identity Z6))"
    using rs r3 by blast
  have m: "Group_power Z6 2 (int m) \<noteq> Inr (identity Z6)" if "0 < m" "m < 3" for m
    using h that by blast
  have "Group_power Z6 2 1 \<noteq> Inr (identity Z6)" "Group_power Z6 2 2 \<noteq> Inr (identity Z6)"
    using m[of 1] m[of 2] by simp_all
  then show ?thesis
    using h v i by (simp add: idz)
qed

section \<open>CyclicGroup: the subgroup spanned by a generator\<close>

lemma is_generator_True:
  assumes "is_generator G g = Inr True"
  shows "g \<in> set (elements G)"
    and "ElementOrder_compute G g = Inr (Some (Set_size (elements G)))"
proof -
  show g: "g \<in> set (elements G)"
    using assms by (auto simp: is_generator_def contains_def split: if_splits)
  then show "ElementOrder_compute G g = Inr (Some (Set_size (elements G)))"
    using assms
    by (cases "ElementOrder_compute G g")
      (auto simp: is_generator_def contains_def split: option.splits)
qed

lemma find_generator_loop_Some:
  "find_generator_loop G cs = Inr (Some g) \<Longrightarrow> g \<in> set cs \<and> is_generator G g = Inr True"
proof (induction cs)
  case Nil
  then show ?case by simp
next
  case (Cons c cs)
  then show ?case
    by (cases "is_generator G c") (auto split: if_splits)
qed

lemma generate_to_order_spec:
  assumes gl: "group_laws G" and g: "g \<in> set (elements G)"
  shows "current = npow G g i \<Longrightarrow>
    \<exists>r. generate_to_order G g n i current acc = Inr r
      \<and> set r = set acc \<union> npow G g ` {i..<n} \<and> (Set_inv acc \<longrightarrow> Set_inv r)"
proof (induction "n - i" arbitrary: i current acc)
  case 0
  then have "\<not> i < n" by simp
  then have "generate_to_order G g n i current acc = Inr acc"
    by (subst generate_to_order.simps) simp
  then show ?case
    using \<open>\<not> i < n\<close> by simp
next
  case (Suc d)
  then have i: "i < n" by simp
  have d: "d = n - (i + 1)"
    using Suc.hyps(2) by simp
  have step: "generate_to_order G g n i current acc
      = generate_to_order G g n (i + 1) (npow G g (Suc i)) (Set_insert current acc)"
    using i Suc.prems gl g by (subst generate_to_order.simps) (simp add: gl_operate npow_in)
  obtain r where r: "generate_to_order G g n (i + 1) (npow G g (Suc i)) (Set_insert current acc)
        = Inr r"
    and rs: "set r = set (Set_insert current acc) \<union> npow G g ` {i + 1..<n}"
    and ri: "Set_inv (Set_insert current acc) \<longrightarrow> Set_inv r"
    using Suc.hyps(1)[OF d, of "npow G g (Suc i)" "Set_insert current acc"] by auto
  have "{i..<n} = insert i {i + 1..<n}"
    using i by auto
  then have "set r = set acc \<union> npow G g ` {i..<n}"
    using rs Suc.prems by simp
  then show ?case
    using step r ri by (simp add: Set_inv_Set_insert)
qed

lemma npow_distinct_below_order:
  assumes gl: "group_laws G" and g: "g \<in> set (elements G)"
    and least: "\<forall>j. 0 < j \<and> j < n \<longrightarrow> npow G g j \<noteq> identity G"
  shows "inj_on (npow G g) {..<n}"
proof -
  have neq: "npow G g i \<noteq> npow G g j" if "i < j" "j < n" for i j
  proof
    assume eq: "npow G g i = npow G g j"
    have "npow G g j = operation G (npow G g i) (npow G g (j - i))"
      using npow_add[OF gl g, of i "j - i"] that by simp
    then have "operation G (npow G g i) (npow G g (j - i))
        = operation G (npow G g i) (identity G)"
      using eq gl g by (simp add: gl_id_right npow_in)
    moreover have "npow G g i \<in> set (elements G)" "npow G g (j - i) \<in> set (elements G)"
      "identity G \<in> set (elements G)"
      using gl g by (simp_all add: npow_in gl_id_in)
    ultimately have "npow G g (j - i) = identity G"
      using gl_left_cancel[OF gl, of "npow G g i" "npow G g (j - i)" "identity G"] by blast
    then show False
      using least that by simp
  qed
  show ?thesis
  proof (rule inj_onI)
    fix i j
    assume "i \<in> {..<n}" "j \<in> {..<n}" "npow G g i = npow G g j"
    then show "i = j"
      using neq[of i j] neq[of j i] by (cases i j rule: linorder_cases) auto
  qed
qed

lemma generator_spans_carrier:
  assumes gl: "group_laws G" and inv: "Set_inv (elements G)" and g: "g \<in> set (elements G)"
    and ord: "ElementOrder_compute G g = Inr (Some (Set_size (elements G)))"
  shows "generate_cyclic_subgroup G g = Inr (elements G)"
proof -
  let ?n = "Set_size (elements G)"
  obtain r where r: "ElementOrder_compute G g = Inr r"
    and rs: "\<forall>k. r = Some k \<longleftrightarrow> (0 < k \<and> k \<le> ?n \<and> npow G g k = identity G
             \<and> (\<forall>j. 0 < j \<and> j < k \<longrightarrow> npow G g j \<noteq> identity G))"
    using ElementOrder_compute_npow[OF gl g] by auto
  have "r = Some ?n"
    using r ord by simp
  then have pos: "0 < ?n" and least: "\<forall>j. 0 < j \<and> j < ?n \<longrightarrow> npow G g j \<noteq> identity G"
    using rs by blast+
  have "g = npow G g 1"
    using gl g by (simp add: gl_id_left)
  then obtain s where s: "generate_to_order G g ?n 1 g (Set_insert (identity G) []) = Inr s"
    and ss: "set s = set (Set_insert (identity G) []) \<union> npow G g ` {1..<?n}"
    and si: "Set_inv (Set_insert (identity G) []) \<longrightarrow> Set_inv s"
    using generate_to_order_spec[OF gl g, of g 1 ?n "Set_insert (identity G) []"] by auto
  have gen: "generate_cyclic_subgroup G g = Inr s"
    using g ord s by (simp add: generate_cyclic_subgroup_def contains_def Let_def)
  have "{..<?n} = insert 0 {1..<?n}"
    using pos by auto
  then have img: "set s = npow G g ` {..<?n}"
    using ss by simp
  have "card (set s) = ?n"
    using npow_distinct_below_order[OF gl g least] by (simp add: img card_image)
  then have "card (set s) = card (set (elements G))"
    using inv by (simp add: Set_inv_card)
  moreover have "set s \<subseteq> set (elements G)"
    using gl g by (auto simp: img npow_in)
  ultimately have "set s = set (elements G)"
    by (simp add: card_subset_eq)
  moreover have "Set_inv s"
    using si by (simp add: Set_inv_Set_insert)
  ultimately have "s = elements G"
    using inv by (simp add: Set_inv_unique)
  then show ?thesis
    using gen by simp
qed

text \<open>
  C7. In a constructed group, an element returned by \<open>CyclicGroup::find_generator\<close> has
  order \<open>|G|\<close>, and \<open>generate_cyclic_subgroup\<close> applied to it returns the whole carrier
  of the group.
\<close>

theorem generate_from_found_generator:
  assumes "Set_inv S" and "Group_ctor S op e f = Inr G" and "find_generator G = Inr (Some g)"
  shows "ElementOrder_compute G g = Inr (Some (Set_size (elements G)))
    \<and> generate_cyclic_subgroup G g = Inr (elements G)"
proof -
  have gl: "group_laws G" and el: "elements G = S"
    using Group_ctor_laws[OF assms(2)] by simp_all
  have "is_generator G g = Inr True"
    using assms(3) find_generator_loop_Some[of G "elements G" g] by (simp add: find_generator_def)
  then have g: "g \<in> set (elements G)"
    and ord: "ElementOrder_compute G g = Inr (Some (Set_size (elements G)))"
    by (rule is_generator_True)+
  show ?thesis
    using generator_spans_carrier[OF gl _ g ord] assms(1) el ord by simp
qed

theorem generate_from_found_generator_witness:
  "find_generator Z6 = Inr (Some 1) \<and> ElementOrder_compute Z6 1 = Inr (Some 6)
   \<and> generate_cyclic_subgroup Z6 1 = Inr [0, 1, 2, 3, 4, 5]"
proof -
  have s: "Set_inv [0, 1, 2, 3, 4, 5 :: int]"
    by (simp add: Set_inv_def)
  have f: "find_generator Z6 = Inr (Some 1)"
    by code_simp
  have "elements Z6 = [0, 1, 2, 3, 4, 5]"
    by (simp add: Z6_def)
  then show ?thesis
    using generate_from_found_generator[OF s Z6_valid f] f by (simp add: Set_size_def)
qed

section \<open>Left cosets\<close>

lemma finite_left_coset [simp]: "finite (left_coset_of G H g)"
  by (simp add: left_coset_of_def)

lemma lc_subset:
  assumes "group_laws G" and "subgroup_laws H" and "parent_group H = G"
    and "g \<in> set (elements G)"
  shows "left_coset_of G H g \<subseteq> set (elements G)"
  using assms sg_in_group[OF assms(2)] by (auto simp: left_coset_of_def gl_closed)

lemma lc_self:
  assumes "group_laws G" and "subgroup_laws H" and "parent_group H = G"
    and "g \<in> set (elements G)"
  shows "g \<in> left_coset_of G H g"
proof -
  have "identity G \<in> set (get_subset H)"
    using sg_id[of H] assms by simp
  moreover have "operation G g (identity G) = g"
    using assms by (simp add: gl_id_right)
  ultimately show ?thesis
    unfolding left_coset_of_def by force
qed

lemma lc_eq:
  assumes gl: "group_laws G" and sl: "subgroup_laws H" and pg: "parent_group H = G"
    and g: "g \<in> set (elements G)" and x: "x \<in> left_coset_of G H g"
  shows "left_coset_of G H x = left_coset_of G H g"
proof -
  have gl': "group_laws (parent_group H)"
    using gl pg by simp
  have inG: "k \<in> set (elements G)" if "k \<in> set (get_subset H)" for k
    using sg_in_group[OF sl that] pg by simp
  from x obtain h where h: "h \<in> set (get_subset H)" and xh: "x = operation G g h"
    by (auto simp: left_coset_of_def)
  have hi: "inverse_func G h \<in> set (get_subset H)"
    using sg_inv[OF gl' sl h] pg by simp
  show ?thesis
  proof (intro set_eqI iffI)
    fix y
    assume "y \<in> left_coset_of G H x"
    then obtain k where k: "k \<in> set (get_subset H)" and y: "y = operation G x k"
      by (auto simp: left_coset_of_def)
    have "operation G h k \<in> set (get_subset H)"
      using sg_closed[OF gl' sl h k] pg by simp
    moreover have "y = operation G g (operation G h k)"
      using gl g h k by (simp add: y xh gl_assoc inG)
    ultimately show "y \<in> left_coset_of G H g"
      unfolding left_coset_of_def by blast
  next
    fix y
    assume "y \<in> left_coset_of G H g"
    then obtain k where k: "k \<in> set (get_subset H)" and y: "y = operation G g k"
      by (auto simp: left_coset_of_def)
    have m: "operation G (inverse_func G h) k \<in> set (get_subset H)"
      using sg_closed[OF gl' sl _ k, of "inverse_func (parent_group H) h"] hi pg by simp
    have "operation G x (operation G (inverse_func G h) k)
        = operation G g (operation G (operation G h (inverse_func G h)) k)"
      using gl g h k hi by (simp add: xh gl_assoc inG gl_closed)
    also have "\<dots> = y"
      using gl h k by (simp add: gl_inv_right gl_id_left inG y)
    finally show "y \<in> left_coset_of G H x"
      using m unfolding left_coset_of_def by force
  qed
qed

lemma lc_disjoint:
  assumes "group_laws G" and "subgroup_laws H" and "parent_group H = G"
    and "g1 \<in> set (elements G)" and "g2 \<in> set (elements G)"
    and "x \<in> left_coset_of G H g1" and "x \<in> left_coset_of G H g2"
  shows "left_coset_of G H g1 = left_coset_of G H g2"
  using lc_eq[OF assms(1-3) assms(4) assms(6)] lc_eq[OF assms(1-3) assms(5) assms(7)]
  by simp

lemma lc_card:
  assumes gl: "group_laws G" and sl: "subgroup_laws H" and pg: "parent_group H = G"
    and g: "g \<in> set (elements G)"
  shows "card (left_coset_of G H g) = card (set (get_subset H))"
proof -
  have inG: "k \<in> set (elements G)" if "k \<in> set (get_subset H)" for k
    using sg_in_group[OF sl that] pg by simp
  have "inj_on (\<lambda>h. operation G g h) (set (get_subset H))"
  proof (rule inj_onI)
    fix h k
    assume "h \<in> set (get_subset H)" "k \<in> set (get_subset H)"
      "operation G g h = operation G g k"
    then show "h = k"
      using gl_left_cancel[OF gl g, of h k] inG by blast
  qed
  then show ?thesis
    by (simp add: left_coset_of_def card_image)
qed

section \<open>LagrangesTheorem::find\_all\_cosets\<close>

lemma find_all_cosets_loop_spec:
  assumes gl: "group_laws G" and sl: "subgroup_laws H" and pg: "parent_group H = G"
  shows "set gs \<subseteq> set (elements G) \<Longrightarrow> Set_inv cs
    \<Longrightarrow> \<forall>c\<in>set cs. \<exists>g\<in>set (elements G). c = sorted_list_of_set (left_coset_of G H g)
    \<Longrightarrow> \<exists>r. find_all_cosets_loop G H gs cs processed = Inr r \<and> Set_inv r
          \<and> (\<forall>c\<in>set r. \<exists>g\<in>set (elements G). c = sorted_list_of_set (left_coset_of G H g))
          \<and> set cs \<subseteq> set r \<and> (\<forall>g\<in>set gs. \<exists>c\<in>set r. g \<in> set c)"
proof (induction gs arbitrary: cs processed)
  case Nil
  then show ?case by simp
next
  case (Cons g gs)
  have g: "g \<in> set (elements G)" and gs: "set gs \<subseteq> set (elements G)"
    using Cons.prems(1) by simp_all
  show ?case
  proof (cases "list_ex (\<lambda>c. contains c g) cs")
    case True
    then obtain c0 where c0: "c0 \<in> set cs" "g \<in> set c0"
      by (auto simp: list_ex_iff contains_def)
    obtain r where r: "find_all_cosets_loop G H gs cs processed = Inr r" "Set_inv r"
      "\<forall>c\<in>set r. \<exists>g\<in>set (elements G). c = sorted_list_of_set (left_coset_of G H g)"
      "set cs \<subseteq> set r" "\<forall>g\<in>set gs. \<exists>c\<in>set r. g \<in> set c"
      using Cons.IH[OF gs Cons.prems(2,3), of processed] by blast
    have "\<exists>c\<in>set r. g \<in> set c"
      using c0 r(4) by blast
    then show ?thesis
      using True r by auto
  next
    case False
    let ?c = "sorted_list_of_set (left_coset_of G H g)"
    let ?cs = "Set_insert ?c cs"
    let ?p = "fold Set_insert ?c processed"
    have ctor: "Coset_ctor G H g LEFT
        = Inr \<lparr>group_ref = G, subgroup_ref = H, representative = g, coset_type = LEFT,
               coset = ?c\<rparr>"
      by (simp add: Coset_ctor_def build_coset_LEFT[OF gl sl pg g])
    have step: "find_all_cosets_loop G H (g # gs) cs processed
        = find_all_cosets_loop G H gs ?cs ?p"
      using False by (simp add: ctor)
    have inv: "Set_inv ?cs"
      using Cons.prems(2) by (rule Set_inv_Set_insert)
    have form: "\<forall>c\<in>set ?cs. \<exists>g\<in>set (elements G). c = sorted_list_of_set (left_coset_of G H g)"
      using Cons.prems(3) g by auto
    obtain r where r: "find_all_cosets_loop G H gs ?cs ?p = Inr r" "Set_inv r"
      "\<forall>c\<in>set r. \<exists>g\<in>set (elements G). c = sorted_list_of_set (left_coset_of G H g)"
      "set ?cs \<subseteq> set r" "\<forall>g\<in>set gs. \<exists>c\<in>set r. g \<in> set c"
      using Cons.IH[OF gs inv form, of ?p] by blast
    have "g \<in> set ?c"
      using lc_self[OF gl sl pg g] by simp
    moreover have "?c \<in> set r"
      using r(4) by auto
    ultimately have "\<exists>c\<in>set r. g \<in> set c"
      by blast
    moreover have "set cs \<subseteq> set r"
      using r(4) by auto
    ultimately show ?thesis
      using step r(1,2,3,5) by auto
  qed
qed

lemma find_all_cosets_spec:
  assumes gl: "group_laws G" and sl: "subgroup_laws H" and pg: "parent_group H = G"
  shows "\<exists>r. find_all_cosets G H = Inr r \<and> Set_inv r
          \<and> (\<forall>c\<in>set r. \<exists>g\<in>set (elements G). c = sorted_list_of_set (left_coset_of G H g))
          \<and> (\<forall>g\<in>set (elements G). \<exists>c\<in>set r. g \<in> set c)"
  using find_all_cosets_loop_spec[OF gl sl pg, of "elements G" "[]" "[]"]
  by (auto simp: find_all_cosets_def)

lemma cosets_unique:
  assumes gl: "group_laws G" and sl: "subgroup_laws H" and pg: "parent_group H = G"
    and form: "\<forall>c\<in>set r. \<exists>g\<in>set (elements G). c = sorted_list_of_set (left_coset_of G H g)"
    and c1: "c1 \<in> set r" and c2: "c2 \<in> set r" and x1: "x \<in> set c1" and x2: "x \<in> set c2"
  shows "c1 = c2"
proof -
  obtain g1 where g1: "g1 \<in> set (elements G)" "c1 = sorted_list_of_set (left_coset_of G H g1)"
    using form c1 by blast
  obtain g2 where g2: "g2 \<in> set (elements G)" "c2 = sorted_list_of_set (left_coset_of G H g2)"
    using form c2 by blast
  have "x \<in> left_coset_of G H g1" "x \<in> left_coset_of G H g2"
    using x1 x2 g1(2) g2(2) by simp_all
  then have "left_coset_of G H g1 = left_coset_of G H g2"
    using lc_disjoint[OF gl sl pg g1(1) g2(1)] by blast
  then show ?thesis
    using g1(2) g2(2) by simp
qed

lemma cosets_count:
  assumes gl: "group_laws G" and sl: "subgroup_laws H" and pg: "parent_group H = G"
    and invG: "Set_inv (elements G)" and invH: "Set_inv (get_subset H)"
    and invr: "Set_inv r"
    and form: "\<forall>c\<in>set r. \<exists>g\<in>set (elements G). c = sorted_list_of_set (left_coset_of G H g)"
    and cover: "\<forall>g\<in>set (elements G). \<exists>c\<in>set r. g \<in> set c"
  shows "(\<Union>c\<in>set r. set c) = set (elements G)"
    and "Set_size (elements G) = Set_size (get_subset H) * Set_size r"
proof -
  have sub: "set c \<subseteq> set (elements G)" if "c \<in> set r" for c
  proof -
    have "\<exists>g\<in>set (elements G). c = sorted_list_of_set (left_coset_of G H g)"
      using form that by (rule bspec)
    then obtain g where g: "g \<in> set (elements G)" "c = sorted_list_of_set (left_coset_of G H g)"
      by (rule bexE)
    have "set c = left_coset_of G H g"
      by (simp add: g(2))
    then show ?thesis
      using lc_subset[OF gl sl pg g(1)] by simp
  qed
  show un: "(\<Union>c\<in>set r. set c) = set (elements G)"
  proof (intro set_eqI iffI)
    fix x
    assume "x \<in> (\<Union>c\<in>set r. set c)"
    then obtain c where "c \<in> set r" "x \<in> set c"
      by auto
    then show "x \<in> set (elements G)"
      using sub[of c] by auto
  next
    fix x
    assume "x \<in> set (elements G)"
    then have "\<exists>c\<in>set r. x \<in> set c"
      using cover by simp
    then show "x \<in> (\<Union>c\<in>set r. set c)"
      by simp
  qed
  have size: "card (set c) = Set_size (get_subset H)" if "c \<in> set r" for c
  proof -
    have "\<exists>g\<in>set (elements G). c = sorted_list_of_set (left_coset_of G H g)"
      using form that by (rule bspec)
    then obtain g where g: "g \<in> set (elements G)" "c = sorted_list_of_set (left_coset_of G H g)"
      by (rule bexE)
    have "set c = left_coset_of G H g"
      by (simp add: g(2))
    then show ?thesis
      using lc_card[OF gl sl pg g(1)] invH by (simp add: Set_inv_card)
  qed
  have disj: "\<forall>c1\<in>set r. \<forall>c2\<in>set r. c1 \<noteq> c2 \<longrightarrow> set c1 \<inter> set c2 = {}"
  proof (intro ballI impI)
    fix c1 c2
    assume c: "c1 \<in> set r" "c2 \<in> set r" and ne: "c1 \<noteq> c2"
    show "set c1 \<inter> set c2 = {}"
    proof (rule ccontr)
      assume "set c1 \<inter> set c2 \<noteq> {}"
      then obtain x where "x \<in> set c1" "x \<in> set c2"
        by auto
      then have "c1 = c2"
        by (rule cosets_unique[OF gl sl pg form c])
      then show False
        using ne by simp
    qed
  qed
  have "card (\<Union>c\<in>set r. set c) = (\<Sum>c\<in>set r. card (set c))"
    by (rule card_UN_disjoint) (simp_all add: disj)
  also have "\<dots> = (\<Sum>c\<in>set r. Set_size (get_subset H))"
    by (rule sum.cong) (simp_all add: size)
  also have "\<dots> = Set_size (get_subset H) * card (set r)"
    by simp
  finally have "card (set (elements G)) = Set_size (get_subset H) * card (set r)"
    using un by simp
  then show "Set_size (elements G) = Set_size (get_subset H) * Set_size r"
    using invG invr by (simp add: Set_inv_card)
qed

text \<open>
  C2. For a constructed group and a validated subgroup of it, \<open>find_all_cosets\<close> returns
  a set of left cosets of the subgroup whose union is the carrier, every element of the
  carrier lies in exactly one of them, the order of the group is the order of the
  subgroup times the number of cosets, and \<open>LagrangesTheorem::verify\<close> returns true.
\<close>

theorem find_all_cosets_partition:
  assumes "Set_inv S" and "Group_ctor S op e f = Inr G"
    and "Set_inv sub" and "Subgroup_ctor G sub = Inr H"
  shows "\<exists>cs. find_all_cosets G H = Inr cs
    \<and> (\<forall>c\<in>set cs. \<exists>g\<in>set (elements G). build_coset G H g LEFT = Inr c)
    \<and> (\<Union>c\<in>set cs. set c) = set (elements G)
    \<and> (\<forall>g\<in>set (elements G). \<exists>!c. c \<in> set cs \<and> contains c g)
    \<and> Set_size (elements G) = Set_size (get_subset H) * Set_size cs
    \<and> compute_index G H = Inr (Set_size cs)
    \<and> LagrangesTheorem_verify G H = Inr True"
proof -
  have gl: "group_laws G" and el: "elements G = S"
    using Group_ctor_laws[OF assms(2)] by simp_all
  have sl: "subgroup_laws H" and pg: "parent_group H = G" and su: "get_subset H = sub"
    using Subgroup_ctor_laws[OF gl assms(4)] by simp_all
  obtain cs where cs: "find_all_cosets G H = Inr cs" and inv: "Set_inv cs"
    and form: "\<forall>c\<in>set cs. \<exists>g\<in>set (elements G). c = sorted_list_of_set (left_coset_of G H g)"
    and cover: "\<forall>g\<in>set (elements G). \<exists>c\<in>set cs. g \<in> set c"
    using find_all_cosets_spec[OF gl sl pg] by (elim exE conjE)
  have built: "\<forall>c\<in>set cs. \<exists>g\<in>set (elements G). build_coset G H g LEFT = Inr c"
  proof
    fix c
    assume "c \<in> set cs"
    with form have "\<exists>g\<in>set (elements G). c = sorted_list_of_set (left_coset_of G H g)"
      by (rule bspec)
    then obtain g where g: "g \<in> set (elements G)"
      "c = sorted_list_of_set (left_coset_of G H g)"
      by (rule bexE)
    have "build_coset G H g LEFT = Inr c"
      using build_coset_LEFT[OF gl sl pg g(1)] g(2) by simp
    then show "\<exists>g\<in>set (elements G). build_coset G H g LEFT = Inr c"
      by (rule bexI[OF _ g(1)])
  qed
  have invG: "Set_inv (elements G)" and invH: "Set_inv (get_subset H)"
    using assms(1,3) el su by simp_all
  note count = cosets_count[OF gl sl pg invG invH inv form cover]
  have uniq: "\<forall>g\<in>set (elements G). \<exists>!c. c \<in> set cs \<and> contains c g"
  proof
    fix g
    assume "g \<in> set (elements G)"
    with cover have "\<exists>c\<in>set cs. g \<in> set c"
      by (rule bspec)
    then obtain c where c: "c \<in> set cs" "g \<in> set c"
      by (rule bexE)
    show "\<exists>!c. c \<in> set cs \<and> contains c g"
    proof (rule ex1I[of _ c])
      show "c \<in> set cs \<and> contains c g"
        using c by (simp add: contains_def)
    next
      fix c'
      assume "c' \<in> set cs \<and> contains c' g"
      then have "c' \<in> set cs" "g \<in> set c'"
        by (simp_all add: contains_def)
      then show "c' = c"
        using c by (intro cosets_unique[OF gl sl pg form, of c' c g])
    qed
  qed
  have idx: "compute_index G H = Inr (Set_size cs)"
    by (simp add: compute_index_def cs)
  have "LagrangesTheorem_verify G H = Inr True"
    using count(2) by (simp add: LagrangesTheorem_verify_def idx Let_def)
  then show ?thesis
    using cs built count uniq idx by (intro exI[of _ cs] conjI)
qed

theorem find_all_cosets_partition_witness:
  "find_all_cosets Z6 H03 = Inr [[0, 3], [1, 4], [2, 5]]
   \<and> compute_index Z6 H03 = Inr 3 \<and> LagrangesTheorem_verify Z6 H03 = Inr True"
proof -
  have s: "Set_inv [0, 1, 2, 3, 4, 5 :: int]" "Set_inv [0, 3 :: int]"
    by (simp_all add: Set_inv_def)
  have c: "find_all_cosets Z6 H03 = Inr [[0, 3], [1, 4], [2, 5]]"
    by code_simp
  show ?thesis
    using find_all_cosets_partition[OF s(1) Z6_valid s(2) H03_valid] c
    by (auto simp: Set_size_def)
qed

section \<open>FactorGroup: the element-to-coset lookup\<close>

lemma assign_coset_apply:
  "assign_coset c m y = (if y \<in> set c then Some c else m y)"
proof -
  have "fold (\<lambda>element m'. m'(element \<mapsto> c)) xs m y = (if y \<in> set xs then Some c else m y)"
    for xs
    by (induction xs arbitrary: m) auto
  then show ?thesis
    by (simp add: assign_coset_def)
qed

lemma lookup_fold_absent:
  "\<forall>c\<in>set cs. x \<notin> set c \<Longrightarrow> fold assign_coset cs m x = m x"
proof (induction cs arbitrary: m)
  case Nil
  then show ?case by simp
next
  case (Cons d cs)
  have "fold assign_coset cs (assign_coset d m) x = assign_coset d m x"
    using Cons.IH[of "assign_coset d m"] Cons.prems by simp
  also have "\<dots> = m x"
    using assign_coset_apply[of d m x] Cons.prems by simp
  finally show ?case by simp
qed

lemma lookup_fold_present:
  "\<exists>c\<in>set cs. x \<in> set c
    \<Longrightarrow> \<exists>c\<in>set cs. x \<in> set c \<and> fold assign_coset cs m x = Some c"
proof (induction cs arbitrary: m)
  case Nil
  then show ?case by simp
next
  case (Cons d cs)
  show ?case
  proof (cases "\<exists>c\<in>set cs. x \<in> set c")
    case True
    then have "\<exists>c\<in>set cs. x \<in> set c \<and> fold assign_coset cs (assign_coset d m) x = Some c"
      by (rule Cons.IH)
    then show ?thesis
      by auto
  next
    case False
    then have d: "x \<in> set d"
      using Cons.prems by auto
    have "fold assign_coset cs (assign_coset d m) x = assign_coset d m x"
      using False by (intro lookup_fold_absent) simp
    also have "\<dots> = Some d"
      using assign_coset_apply[of d m x] d by simp
    finally show ?thesis
      using d by simp
  qed
qed

lemma find_coset_containing_spec:
  assumes gl: "group_laws G" and sl: "subgroup_laws N" and pg: "parent_group N = G"
    and F: "FactorGroup_ctor G N = Inr F" and x: "x \<in> set (elements G)"
  shows "find_coset_containing F x = Inr (sorted_list_of_set (left_coset_of G N x))"
    and "sorted_list_of_set (left_coset_of G N x) \<in> set (cosets F)"
proof -
  obtain cs where cs: "find_all_cosets G N = Inr cs"
    and form: "\<forall>c\<in>set cs. \<exists>g\<in>set (elements G). c = sorted_list_of_set (left_coset_of G N g)"
    and cover: "\<forall>g\<in>set (elements G). \<exists>c\<in>set cs. g \<in> set c"
    using find_all_cosets_spec[OF gl sl pg] by (elim exE conjE)
  have Fc: "cosets F = cs" and Fm: "element_to_coset F = build_element_to_coset cs"
    using F by (auto simp: FactorGroup_ctor_def cs)
  have "\<exists>c\<in>set cs. x \<in> set c"
    using cover x by (rule bspec)
  then have "\<exists>c\<in>set cs. x \<in> set c \<and> build_element_to_coset cs x = Some c"
    unfolding build_element_to_coset_def by (rule lookup_fold_present)
  then obtain c where c: "c \<in> set cs" "x \<in> set c" "build_element_to_coset cs x = Some c"
    by (elim bexE conjE)
  have "\<exists>g\<in>set (elements G). c = sorted_list_of_set (left_coset_of G N g)"
    using form c(1) by (rule bspec)
  then obtain g where g: "g \<in> set (elements G)" "c = sorted_list_of_set (left_coset_of G N g)"
    by (rule bexE)
  have "x \<in> left_coset_of G N g"
    using c(2) g(2) by simp
  then have "left_coset_of G N x = left_coset_of G N g"
    by (rule lc_eq[OF gl sl pg g(1)])
  then have ceq: "c = sorted_list_of_set (left_coset_of G N x)"
    using g(2) by simp
  show "find_coset_containing F x = Inr (sorted_list_of_set (left_coset_of G N x))"
    using c(3) ceq by (simp add: find_coset_containing_def Fm)
  show "sorted_list_of_set (left_coset_of G N x) \<in> set (cosets F)"
    using c(1) ceq Fc by simp
qed

lemma cosets_of_FactorGroup:
  assumes gl: "group_laws G" and sl: "subgroup_laws N" and pg: "parent_group N = G"
    and F: "FactorGroup_ctor G N = Inr F" and A: "A \<in> set (cosets F)"
  shows "\<exists>g\<in>set (elements G). A = sorted_list_of_set (left_coset_of G N g)"
proof -
  obtain cs where cs: "find_all_cosets G N = Inr cs"
    and form: "\<forall>c\<in>set cs. \<exists>g\<in>set (elements G). c = sorted_list_of_set (left_coset_of G N g)"
    using find_all_cosets_spec[OF gl sl pg] by (elim exE conjE)
  have "cosets F = cs"
    using F by (auto simp: FactorGroup_ctor_def cs)
  then have "A \<in> set cs"
    using A by simp
  with form show ?thesis
    by (rule bspec)
qed

section \<open>FactorGroup: the induced operation\<close>

lemma normal_product_in_coset:
  assumes gl: "group_laws G" and sl: "subgroup_laws N" and pg: "parent_group N = G"
    and nl: "normal_laws N"
    and a: "a \<in> set (elements G)" and b: "b \<in> set (elements G)"
    and a': "a' \<in> left_coset_of G N a" and b': "b' \<in> left_coset_of G N b"
  shows "operation G a' b' \<in> left_coset_of G N (operation G a b)"
proof -
  have gl': "group_laws (parent_group N)"
    using gl pg by simp
  have inG: "k \<in> set (elements G)" if "k \<in> set (get_subset N)" for k
    using sg_in_group[OF sl that] pg by simp
  from a' obtain n1 where n1: "n1 \<in> set (get_subset N)" and a'e: "a' = operation G a n1"
    by (auto simp: left_coset_of_def)
  from b' obtain n2 where n2: "n2 \<in> set (get_subset N)" and b'e: "b' = operation G b n2"
    by (auto simp: left_coset_of_def)
  have "operation G n1 b \<in> right_coset_of G N b"
    using n1 by (auto simp: right_coset_of_def)
  then have "operation G n1 b \<in> left_coset_of G N b"
    using normal_imp_cosets_agree[OF gl' sl nl, of b] b pg by simp
  then obtain n3 where n3: "n3 \<in> set (get_subset N)"
    and sw: "operation G n1 b = operation G b n3"
    by (auto simp: left_coset_of_def)
  have n32: "operation G n3 n2 \<in> set (get_subset N)"
    using sg_closed[OF gl' sl n3 n2] pg by simp
  have "operation G a' b' = operation G a (operation G (operation G n1 b) n2)"
    using gl a b n1 n2 by (simp add: a'e b'e gl_assoc inG gl_closed)
  also have "\<dots> = operation G a (operation G b (operation G n3 n2))"
    using gl b n2 n3 by (simp add: sw gl_assoc inG)
  also have "\<dots> = operation G (operation G a b) (operation G n3 n2)"
    using gl a b n2 n3 by (simp add: gl_assoc inG gl_closed)
  finally show ?thesis
    using n32 unfolding left_coset_of_def by blast
qed

lemma Set_begin_nonempty: "x \<in> set A \<Longrightarrow> \<exists>y. Set_begin A = Inr y \<and> y \<in> set A"
  by (cases A) (auto simp: Set_begin_def)

lemma NormalSubgroup_ctor_laws:
  assumes "group_laws G"
    and "(\<exists>H. Subgroup_ctor G sub = Inr H \<and> NormalSubgroup_ctor H = Inr N)
      \<or> NormalSubgroup_ctor2 G sub = Inr N"
  shows "subgroup_laws N" "parent_group N = G" "normal_laws N"
proof -
  have *: "subgroup_laws N \<and> parent_group N = G \<and> normal_laws N"
    if H: "Subgroup_ctor G sub = Inr H" and v: "verify_normal H = Inr True" and e: "N = H"
    for H
  proof -
    have sl: "subgroup_laws H" and pg: "parent_group H = G"
      using Subgroup_ctor_laws[OF assms(1) H] by simp_all
    have "verify_normal H = Inr (normal_laws H)"
      using verify_normal_laws[of H] sl pg assms(1) by simp
    then show ?thesis
      using v sl pg e by simp
  qed
  have "\<exists>H. Subgroup_ctor G sub = Inr H \<and> verify_normal H = Inr True \<and> N = H"
    using assms(2)
  proof
    assume "\<exists>H. Subgroup_ctor G sub = Inr H \<and> NormalSubgroup_ctor H = Inr N"
    then obtain H where H: "Subgroup_ctor G sub = Inr H" "NormalSubgroup_ctor H = Inr N"
      by (elim exE conjE)
    have "verify_normal H = Inr True \<and> N = H"
      using H(2) by (auto simp: NormalSubgroup_ctor_def bindE_eq_Inr split: if_splits)
    then show ?thesis
      using H(1) by auto
  next
    assume "NormalSubgroup_ctor2 G sub = Inr N"
    then show ?thesis
      by (auto simp: NormalSubgroup_ctor2_def bindE_eq_Inr split: if_splits)
  qed
  then show "subgroup_laws N" "parent_group N = G" "normal_laws N"
    using * by auto
qed

text \<open>
  C1. Let \<open>F\<close> be the factor group of a constructed group \<open>G\<close> by a normal subgroup \<open>N\<close> of
  \<open>G\<close>, built by either constructor of \<open>NormalSubgroup\<close>. For cosets \<open>A\<close> and \<open>B\<close> of \<open>F\<close> and
  any representatives \<open>a, a'\<close> of \<open>A\<close> and \<open>b, b'\<close> of \<open>B\<close>, the coset that contains
  \<open>a \<circ> b\<close> is the coset that contains \<open>a' \<circ> b'\<close>; it is the left coset \<open>(a \<circ> b)N\<close>, an
  element of \<open>F\<close>, and \<open>FactorGroup::operate(A, B)\<close> returns it.
\<close>

theorem FactorGroup_operate_well_defined:
  assumes "Group_ctor S op e f = Inr G"
    and "(\<exists>H. Subgroup_ctor G sub = Inr H \<and> NormalSubgroup_ctor H = Inr N)
      \<or> NormalSubgroup_ctor2 G sub = Inr N"
    and "FactorGroup_ctor G N = Inr F"
    and "contains (cosets F) A" and "contains (cosets F) B"
    and "contains A a" and "contains A a'" and "contains B b" and "contains B b'"
  shows "\<exists>C. find_coset_containing F (op a b) = Inr C
    \<and> find_coset_containing F (op a' b') = Inr C
    \<and> FactorGroup_operate F A B = Inr C
    \<and> build_coset G N (op a b) LEFT = Inr C
    \<and> contains (cosets F) C \<and> contains C (op a b) \<and> contains C (op a' b')"
proof -
  have gl: "group_laws G" and opG: "operation G = op"
    using Group_ctor_laws[OF assms(1)] by simp_all
  note N = NormalSubgroup_ctor_laws[OF gl assms(2)]
  note sl = N(1) and pg = N(2) and nl = N(3)
  note F = assms(3)
  have Fg: "fg_parent_group F = G"
    using F by (auto simp: FactorGroup_ctor_def bindE_eq_Inr)
  have A: "A \<in> set (cosets F)" and B: "B \<in> set (cosets F)"
    using assms(4,5) by (simp_all add: contains_def)
  obtain gA where gA: "gA \<in> set (elements G)" "A = sorted_list_of_set (left_coset_of G N gA)"
    using cosets_of_FactorGroup[OF gl sl pg F A] by (rule bexE)
  obtain gB where gB: "gB \<in> set (elements G)" "B = sorted_list_of_set (left_coset_of G N gB)"
    using cosets_of_FactorGroup[OF gl sl pg F B] by (rule bexE)
  have setA: "set A = left_coset_of G N gA" and setB: "set B = left_coset_of G N gB"
    by (simp_all add: gA(2) gB(2))
  have inA: "x \<in> set (elements G) \<and> left_coset_of G N x = left_coset_of G N gA"
    if "x \<in> set A" for x
    using that setA lc_subset[OF gl sl pg gA(1)] lc_eq[OF gl sl pg gA(1), of x] by auto
  have inB: "x \<in> set (elements G) \<and> left_coset_of G N x = left_coset_of G N gB"
    if "x \<in> set B" for x
    using that setB lc_subset[OF gl sl pg gB(1)] lc_eq[OF gl sl pg gB(1), of x] by auto
  have same: "left_coset_of G N (operation G x y) = left_coset_of G N (operation G a b)"
    if "x \<in> set A" "y \<in> set B" for x y
  proof -
    have a: "a \<in> set (elements G)" "a \<in> set A" and b: "b \<in> set (elements G)" "b \<in> set B"
      using assms(6,8) inA inB by (simp_all add: contains_def)
    have "x \<in> left_coset_of G N a"
      using that(1) setA inA[OF a(2)] by simp
    moreover have "y \<in> left_coset_of G N b"
      using that(2) setB inB[OF b(2)] by simp
    ultimately have "operation G x y \<in> left_coset_of G N (operation G a b)"
      by (rule normal_product_in_coset[OF gl sl pg nl a(1) b(1)])
    then show ?thesis
      using a(1) b(1) gl by (intro lc_eq[OF gl sl pg]) (simp_all add: gl_closed)
  qed
  let ?C = "sorted_list_of_set (left_coset_of G N (operation G a b))"
  have a: "a \<in> set A" and a': "a' \<in> set A" and b: "b \<in> set B" and b': "b' \<in> set B"
    using assms(6-9) by (simp_all add: contains_def)
  have prod_in: "operation G x y \<in> set (elements G)" if "x \<in> set A" "y \<in> set B" for x y
    using that inA inB gl by (simp add: gl_closed)
  have find: "find_coset_containing F (operation G x y) = Inr ?C"
    if "x \<in> set A" "y \<in> set B" for x y
    using find_coset_containing_spec(1)[OF gl sl pg F prod_in[OF that]] same[OF that] by simp
  obtain a0 where a0: "Set_begin A = Inr a0" "a0 \<in> set A"
    using Set_begin_nonempty[OF a] by (elim exE conjE)
  obtain b0 where b0: "Set_begin B = Inr b0" "b0 \<in> set B"
    using Set_begin_nonempty[OF b] by (elim exE conjE)
  have "operate G a0 b0 = Inr (operation G a0 b0)"
    using gl a0(2) b0(2) inA inB by (simp add: gl_operate)
  then have op: "FactorGroup_operate F A B = Inr ?C"
    using assms(4,5) a0 b0 find[OF a0(2) b0(2)] by (simp add: FactorGroup_operate_def Fg)
  have built: "build_coset G N (operation G a b) LEFT = Inr ?C"
    by (rule build_coset_LEFT[OF gl sl pg prod_in[OF a b]])
  have mem: "contains (cosets F) ?C"
    using find_coset_containing_spec(2)[OF gl sl pg F prod_in[OF a b]]
    by (simp add: contains_def)
  have "operation G a b \<in> left_coset_of G N (operation G a b)"
    by (rule lc_self[OF gl sl pg prod_in[OF a b]])
  moreover have "operation G a' b' \<in> left_coset_of G N (operation G a' b')"
    by (rule lc_self[OF gl sl pg prod_in[OF a' b']])
  ultimately have "contains ?C (operation G a b)" "contains ?C (operation G a' b')"
    using same[OF a' b'] by (simp_all add: contains_def)
  then show ?thesis
    using find[OF a b] find[OF a' b'] op built mem opG by (intro exI[of _ ?C]) simp
qed

lemma H03_normal: "NormalSubgroup_ctor H03 = Inr H03"
proof -
  have "verify_normal H03 = Inr True"
    by code_simp
  then show ?thesis
    by (simp add: NormalSubgroup_ctor_def)
qed

lemma Z6_mod_H03_valid: "FactorGroup_ctor Z6 H03 = Inr Z6_mod_H03"
proof -
  have "find_all_cosets Z6 H03 = Inr [[0, 3], [1, 4], [2, 5]]"
    by code_simp
  then show ?thesis
    by (simp add: FactorGroup_ctor_def Z6_mod_H03_def)
qed

lemma R012_normal: "NormalSubgroup_ctor2 D3 [0, 1, 2] = Inr R012"
proof -
  have "verify_subgroup_criterion R012 = Inr True" "verify_normal R012 = Inr True"
    by code_simp+
  then show ?thesis
    by (simp add: NormalSubgroup_ctor2_def Subgroup_ctor_def R012_def)
qed

lemma D3_mod_R012_valid: "FactorGroup_ctor D3 R012 = Inr D3_mod_R012"
proof -
  have "find_all_cosets D3 R012 = Inr [[0, 1, 2], [3, 4, 5]]"
    by code_simp
  then show ?thesis
    by (simp add: FactorGroup_ctor_def D3_mod_R012_def)
qed

theorem FactorGroup_operate_well_defined_witness:
  "FactorGroup_operate Z6_mod_H03 [1, 4] [2, 5] = Inr [0, 3]
   \<and> find_coset_containing Z6_mod_H03 (add_mod6 1 2) = Inr [0, 3]
   \<and> find_coset_containing Z6_mod_H03 (add_mod6 4 5) = Inr [0, 3]
   \<and> FactorGroup_operate D3_mod_R012 [3, 4, 5] [0, 1, 2] = Inr [3, 4, 5]
   \<and> find_coset_containing D3_mod_R012 (d3_op 3 1) = Inr [3, 4, 5]
   \<and> find_coset_containing D3_mod_R012 (d3_op 4 2) = Inr [3, 4, 5]"
proof -
  have n': "(\<exists>H. Subgroup_ctor D3 [0, 1, 2] = Inr H \<and> NormalSubgroup_ctor H = Inr R012)
      \<or> NormalSubgroup_ctor2 D3 [0, 1, 2] = Inr R012"
    using R012_normal by blast
  have c': "contains (cosets D3_mod_R012) [3, 4, 5]" "contains (cosets D3_mod_R012) [0, 1, 2]"
    "contains [3, 4, 5] (3 :: int)" "contains [3, 4, 5] (4 :: int)"
    "contains [0, 1, 2] (1 :: int)" "contains [0, 1, 2] (2 :: int)"
    by (simp_all add: contains_def D3_mod_R012_def)
  obtain D where D: "find_coset_containing D3_mod_R012 (d3_op 3 1) = Inr D"
    "find_coset_containing D3_mod_R012 (d3_op 4 2) = Inr D"
    "FactorGroup_operate D3_mod_R012 [3, 4, 5] [0, 1, 2] = Inr D"
    "build_coset D3 R012 (d3_op 3 1) LEFT = Inr D"
    using FactorGroup_operate_well_defined[OF D3_valid n' D3_mod_R012_valid c'] by blast
  have "build_coset D3 R012 (d3_op 3 1) LEFT = Inr [3, 4, 5]"
    by code_simp
  then have "D = [3, 4, 5]"
    using D(4) by simp
  then have second: "FactorGroup_operate D3_mod_R012 [3, 4, 5] [0, 1, 2] = Inr [3, 4, 5]
   \<and> find_coset_containing D3_mod_R012 (d3_op 3 1) = Inr [3, 4, 5]
   \<and> find_coset_containing D3_mod_R012 (d3_op 4 2) = Inr [3, 4, 5]"
    using D(1-3) by simp
  have n: "(\<exists>H. Subgroup_ctor Z6 [0, 3] = Inr H \<and> NormalSubgroup_ctor H = Inr H03)
      \<or> NormalSubgroup_ctor2 Z6 [0, 3] = Inr H03"
    using H03_valid H03_normal by blast
  have c: "contains (cosets Z6_mod_H03) [1, 4]" "contains (cosets Z6_mod_H03) [2, 5]"
    "contains [1, 4] (1 :: int)" "contains [1, 4] (4 :: int)"
    "contains [2, 5] (2 :: int)" "contains [2, 5] (5 :: int)"
    by (simp_all add: contains_def Z6_mod_H03_def)
  obtain C where C: "find_coset_containing Z6_mod_H03 (add_mod6 1 2) = Inr C"
    "find_coset_containing Z6_mod_H03 (add_mod6 4 5) = Inr C"
    "FactorGroup_operate Z6_mod_H03 [1, 4] [2, 5] = Inr C"
    "build_coset Z6 H03 (add_mod6 1 2) LEFT = Inr C"
    using FactorGroup_operate_well_defined[OF Z6_valid n Z6_mod_H03_valid c] by blast
  have "build_coset Z6 H03 (add_mod6 1 2) LEFT = Inr [0, 3]"
    by code_simp
  then have "C = [0, 3]"
    using C(4) by simp
  then show ?thesis
    using C(1-3) second by simp
qed

section \<open>EulerFunction: the values of scenario C\<close>

text \<open>
  C8. \<open>EulerFunction::compute\<close> returns 1, 2, 6 and 4 for the inputs 1, 6, 7 and 12, and
  for each of these inputs the sum of \<open>compute(d)\<close> over the divisors \<open>d\<close> of the input is
  the input, so \<open>verify_sum_over_divisors\<close> returns true.
\<close>

theorem EulerFunction_scenario:
  "EulerFunction_compute 1 = Some 1 \<and> EulerFunction_compute 6 = Some 2
   \<and> EulerFunction_compute 7 = Some 6 \<and> EulerFunction_compute 12 = Some 4
   \<and> sum_over_divisors 1 1 0 = Some 1 \<and> sum_over_divisors 6 1 0 = Some 6
   \<and> sum_over_divisors 7 1 0 = Some 7 \<and> sum_over_divisors 12 1 0 = Some 12
   \<and> verify_sum_over_divisors 1 = Some True \<and> verify_sum_over_divisors 6 = Some True
   \<and> verify_sum_over_divisors 7 = Some True \<and> verify_sum_over_divisors 12 = Some True"
  by (simp add: verify_sum_over_divisors_def sum_over_divisors.simps EulerFunction_compute_def
      factor_loop.simps strip_prime.simps word_le_nat_alt word_less_nat_alt)

end
